theory Spec2Isabelle
  imports Complex_Main "HOL-Library.Signed_Division" "HOL-Library.Word" "HOL-Library.Multiset"
begin

section \<open>The Mandelbrot renderer of fractal\_C\_MPI\_live\_CLIArgs.c\<close>

text \<open>
  Conventions of the embedding.
  \<^item> A finite C \<open>double\<close> is a \<^typ>\<open>real\<close>; infinities and NaN are not modelled. The
    renderer is given with exact arithmetic and with \<^const>\<open>ln\<close> for \<open>log\<close>: what is proved of
    the protocol holds for any function from pixels to colors, and the values of the kernel
    that are computed below are at arguments where every intermediate result is a small
    integer or is bracketed by integers. The escape-time kernel is given a second time with
    the arithmetic of the platform as a parameter (a rounding after each operation and the
    \<open>log\<close> of the library), for the statements that depend on rounding.
  \<^item> A C \<open>int\<close> is an \<^typ>\<open>int\<close>. Signed overflow is undefined in C; the predicate
    \<open>config_ok\<close> below bounds the raster so that no expression of the program overflows.
  \<^item> An \<open>unsigned char\<close> is an \<open>8 word\<close>.
  \<^item> A buffer is a list of bytes. A store outside a buffer is undefined in C and leaves the
    list as it is here; the statements on the renderer assume the length its callers allocate.
  \<^item> \<open>malloc\<close> succeeds: the calls of \<open>MPI_Abort\<close> are not modelled.
\<close>

type_synonym byte = "8 word"

subsection \<open>Conversions and library functions of C\<close>

text \<open>Conversion of a \<open>double\<close> to an integer type discards the fractional part.\<close>

definition c_trunc :: "real \<Rightarrow> int" where
  "c_trunc v = (if 0 \<le> v then \<lfloor>v\<rfloor> else \<lceil>v\<rceil>)"

text \<open>\<open>fmod(a, b)\<close>: the remainder \<open>a - n * b\<close> with \<open>n\<close> the quotient truncated toward zero.\<close>

definition c_fmod :: "real \<Rightarrow> real \<Rightarrow> real" where
  "c_fmod a b = a - of_int (c_trunc (a / b)) * b"

text \<open>
  The cast \<open>(unsigned char) v\<close>. C defines it when the truncated value is in \<open>0..255\<close>;
  outside that range the model keeps the low eight bits of the truncated value.
\<close>

definition uchar_of_double :: "real \<Rightarrow> byte" where
  "uchar_of_double v = word_of_int (c_trunc v)"

subsection \<open>Constants and configuration\<close>

definition CHUNK_SIZE :: int where
  "CHUNK_SIZE = 10"

definition INT_MAX :: int where
  "INT_MAX = 2147483647"

record config =
  cfg_width :: int
  cfg_height :: int
  cfg_max_iter :: int

record view =
  view_zoom :: real
  view_centerX :: real
  view_centerY :: real

text \<open>
  What \<open>main\<close> establishes before the first frame (lines 127 to 129 replace non-positive
  values by the defaults), together with the absence of overflow in \<open>3 * width * height\<close>.
\<close>

definition config_ok :: "config \<Rightarrow> bool" where
  "config_ok c \<longleftrightarrow>
     0 < cfg_width c \<and> 0 < cfg_height c \<and> 0 < cfg_max_iter c \<and>
     3 * cfg_width c * cfg_height c \<le> INT_MAX"

subsection \<open>Pixel to complex plane\<close>

definition map_pixel_to_complex :: "int \<Rightarrow> int \<Rightarrow> real \<Rightarrow> real \<Rightarrow> real" where
  "map_pixel_to_complex pixel dimension center scale =
     center + of_int (pixel - dimension sdiv 2) * scale"

subsection \<open>Escape-time kernel\<close>

text \<open>The \<open>while\<close> loop of \<open>mandelbrot\<close>; it returns the final \<open>(x, y, iter)\<close>.\<close>

function mandel_loop :: "real \<Rightarrow> real \<Rightarrow> int \<Rightarrow> real \<Rightarrow> real \<Rightarrow> int \<Rightarrow> real \<times> real \<times> int" where
  "mandel_loop x0 y0 max_iter x y iter =
     (if x * x + y * y \<le> 4 \<and> iter < max_iter
      then mandel_loop x0 y0 max_iter (x * x - y * y + x0) (2 * x * y + y0) (iter + 1)
      else (x, y, iter))"
  by pat_completeness auto
termination
  by (relation "measure (\<lambda>(x0, y0, max_iter, x, y, iter). nat (max_iter - iter))") auto

declare mandel_loop.simps [simp del]

text \<open>The expression of the final \<open>return\<close> statement, before its conversion to \<open>int\<close>.\<close>

definition smooth_value :: "real \<Rightarrow> real \<Rightarrow> int \<Rightarrow> real" where
  "smooth_value x y iter =
     (let log_zn = ln (x * x + y * y) / 2;
          nu = ln (log_zn / ln 2) / ln 2
      in of_int (iter + 1) - nu)"

text \<open>
  The function is declared \<open>int mandelbrot(...)\<close>: the returned \<open>double\<close> is truncated. For
  \<open>max_iter \<ge> 0\<close> a loop that ends early ends with \<open>x\<^sup>2 + y\<^sup>2 > 4\<close>, so that both logarithms
  have a positive argument.
\<close>

definition mandelbrot :: "real \<Rightarrow> real \<Rightarrow> int \<Rightarrow> int" where
  "mandelbrot x0 y0 max_iter =
     (case mandel_loop x0 y0 max_iter 0 0 0 of
        (x, y, iter) \<Rightarrow>
          if iter = max_iter then max_iter else c_trunc (smooth_value x y iter))"


subsection \<open>Escape-time kernel in the arithmetic of the platform\<close>

text \<open>
  In IEEE-754 arithmetic each of \<open>+\<close>, \<open>-\<close>, \<open>*\<close>, \<open>/\<close> gives the exact result rounded to a
  \<open>double\<close>, and \<open>log\<close> gives some \<open>double\<close> near the logarithm. \<open>fp_round\<close> is that rounding
  and \<open>fp_log\<close> the library's \<open>log\<close>. The conversion of an \<open>int\<close> to \<open>double\<close> and the
  comparisons are exact.
\<close>

record fpu =
  fp_round :: "real \<Rightarrow> real"
  fp_log :: "real \<Rightarrow> real"

text \<open>Exact arithmetic is one instance.\<close>

definition exact_fpu :: fpu where
  "exact_fpu = \<lparr>fp_round = (\<lambda>a. a), fp_log = ln\<rparr>"

text \<open>
  What the statements below ask of the arithmetic: rounding is monotone and leaves the
  integers up to \<open>2\<^sup>5\<^sup>3\<close> as they are; \<open>log(2)\<close> is a positive \<open>double\<close>; \<open>log\<close> of an argument
  above 4 is at least \<open>2 * log(2)\<close>, and \<open>log\<close> of an argument from 1 on is not negative (as
  for every monotone \<open>log\<close> with \<open>log(1) = 0\<close> and \<open>log(4) = 2 * log(2)\<close>).
\<close>

definition fpu_ok :: "fpu \<Rightarrow> bool" where
  "fpu_ok F \<longleftrightarrow>
     (\<forall>a b. a \<le> b \<longrightarrow> fp_round F a \<le> fp_round F b)
     \<and> (\<forall>n :: int. \<bar>n\<bar> \<le> 2 ^ 53 \<longrightarrow> fp_round F (of_int n) = of_int n)
     \<and> 0 < fp_log F 2
     \<and> fp_round F (fp_log F 2) = fp_log F 2
     \<and> (\<forall>a. 4 < a \<longrightarrow> 2 * fp_log F 2 \<le> fp_log F a)
     \<and> (\<forall>a. 1 \<le> a \<longrightarrow> 0 \<le> fp_log F a)"

text \<open>The value of \<open>x*x + y*y\<close>.\<close>

definition norm_fp :: "fpu \<Rightarrow> real \<Rightarrow> real \<Rightarrow> real" where
  "norm_fp F x y = fp_round F (fp_round F (x * x) + fp_round F (y * y))"

text \<open>The \<open>while\<close> loop of \<open>mandelbrot\<close>, with \<open>x*x - y*y + x0\<close> and \<open>2*x*y + y0\<close> from left to right.\<close>

function mandel_loop_fp ::
  "fpu \<Rightarrow> real \<Rightarrow> real \<Rightarrow> int \<Rightarrow> real \<Rightarrow> real \<Rightarrow> int \<Rightarrow> real \<times> real \<times> int" where
  "mandel_loop_fp F x0 y0 max_iter x y iter =
     (if norm_fp F x y \<le> 4 \<and> iter < max_iter
      then mandel_loop_fp F x0 y0 max_iter
             (fp_round F (fp_round F (fp_round F (x * x) - fp_round F (y * y)) + x0))
             (fp_round F (fp_round F (fp_round F (2 * x) * y) + y0))
             (iter + 1)
      else (x, y, iter))"
  by pat_completeness auto
termination
  by (relation "measure (\<lambda>(F, x0, y0, max_iter, x, y, iter). nat (max_iter - iter))") auto

declare mandel_loop_fp.simps [simp del]

text \<open>The variable \<open>nu\<close> and the expression of the final \<open>return\<close> statement.\<close>

definition nu_fp :: "fpu \<Rightarrow> real \<Rightarrow> real \<Rightarrow> real" where
  "nu_fp F x y =
     (let log_zn = fp_round F (fp_log F (norm_fp F x y) / 2)
      in fp_round F (fp_log F (fp_round F (log_zn / fp_log F 2)) / fp_log F 2))"

definition smooth_value_fp :: "fpu \<Rightarrow> real \<Rightarrow> real \<Rightarrow> int \<Rightarrow> real" where
  "smooth_value_fp F x y iter = fp_round F (of_int (iter + 1) - nu_fp F x y)"

definition mandelbrot_fp :: "fpu \<Rightarrow> real \<Rightarrow> real \<Rightarrow> int \<Rightarrow> int" where
  "mandelbrot_fp F x0 y0 max_iter =
     (case mandel_loop_fp F x0 y0 max_iter 0 0 0 of
        (x, y, iter) \<Rightarrow>
          if iter = max_iter then max_iter else c_trunc (smooth_value_fp F x y iter))"

subsection \<open>Color mapper\<close>

definition iteration_to_color :: "real \<Rightarrow> int \<Rightarrow> byte \<times> byte \<times> byte" where
  "iteration_to_color iter max_iter =
     (if of_int max_iter \<le> iter then (0, 0, 0)
      else
        let t = iter / of_int max_iter;
            hue = 360 * t;
            c = 1;
            x = c * (1 - \<bar>c_fmod (hue / 60) 2 - 1\<bar>);
            m = 0;
            (r, g, b) =
              (if hue < 60 then (c, x, 0)
               else if hue < 120 then (x, c, 0)
               else if hue < 180 then (0, c, x)
               else if hue < 240 then (0, x, c)
               else if hue < 300 then (x, 0, c)
               else (c, 0, x))
        in (uchar_of_double ((r + m) * 255),
            uchar_of_double ((g + m) * 255),
            uchar_of_double ((b + m) * 255)))"

text \<open>
  The HSV mapping in the words of the specification, section 4.2: the bytes of the six triples
  among which the sextant selects.
\<close>

definition rmod :: "real \<Rightarrow> real \<Rightarrow> real" where
  "rmod a b = a - of_int \<lfloor>a / b\<rfloor> * b"

definition hsv_triples :: "real \<Rightarrow> int \<Rightarrow> (byte \<times> byte \<times> byte) list" where
  "hsv_triples i maxIter =
     (let t = i / of_int maxIter;
          H = 360 * t;
          C = 1;
          X = 1 - \<bar>rmod (H / 60) 2 - 1\<bar>
      in map (\<lambda>(R, G, B). (word_of_int (c_trunc (R * 255)),
                          word_of_int (c_trunc (G * 255)),
                          word_of_int (c_trunc (B * 255))))
           [(C, X, 0), (X, C, 0), (0, C, X), (0, X, C), (X, 0, C), (C, 0, X)])"

subsection \<open>Row-chunk renderer\<close>

text \<open>\<open>iteration_to_color\<close> stores through \<open>&buffer[index]\<close>: three consecutive bytes.\<close>

definition put_rgb :: "byte list \<Rightarrow> nat \<Rightarrow> byte \<times> byte \<times> byte \<Rightarrow> byte list" where
  "put_rgb buffer index rgb =
     (case rgb of (r, g, b) \<Rightarrow> buffer[index := r, index + 1 := g, index + 2 := b])"

definition compute_rows ::
  "real \<Rightarrow> real \<Rightarrow> real \<Rightarrow> int \<Rightarrow> int \<Rightarrow> int \<Rightarrow> int \<Rightarrow> int \<Rightarrow> byte list \<Rightarrow> byte list" where
  "compute_rows zoom centerX centerY startY endY width height max_iter buffer =
     (let scale = 4 / (of_int width * zoom) in
      fold (\<lambda>y. fold (\<lambda>x buf.
              let cx = map_pixel_to_complex x width centerX scale;
                  cy = map_pixel_to_complex y height centerY scale;
                  iter = of_int (mandelbrot cx cy max_iter);
                  localY = y - startY;
                  index = (localY * width + x) * 3
              in put_rgb buf (nat index) (iteration_to_color iter max_iter))
            [0 .. width - 1])
        [startY .. endY - 1] buffer)"

text \<open>The color of pixel \<open>(x, y)\<close>, and the frame as one call of the renderer on all rows.\<close>

definition pixel_color :: "config \<Rightarrow> view \<Rightarrow> int \<Rightarrow> int \<Rightarrow> byte \<times> byte \<times> byte" where
  "pixel_color c v x y =
     (let scale = 4 / (of_int (cfg_width c) * view_zoom v);
          cx = map_pixel_to_complex x (cfg_width c) (view_centerX v) scale;
          cy = map_pixel_to_complex y (cfg_height c) (view_centerY v) scale
      in iteration_to_color (of_int (mandelbrot cx cy (cfg_max_iter c))) (cfg_max_iter c))"

definition channel :: "byte \<times> byte \<times> byte \<Rightarrow> nat \<Rightarrow> byte" where
  "channel rgb k = (case rgb of (r, g, b) \<Rightarrow> if k = 0 then r else if k = 1 then g else b)"

text \<open>The bytes of one pixel, of one row and of the rows \<open>[startY, startY + chunkSize)\<close>.\<close>

definition rgb_list :: "byte \<times> byte \<times> byte \<Rightarrow> byte list" where
  "rgb_list rgb = (case rgb of (r, g, b) \<Rightarrow> [r, g, b])"

definition row_bytes :: "config \<Rightarrow> view \<Rightarrow> int \<Rightarrow> byte list" where
  "row_bytes c v y = concat (map (\<lambda>x. rgb_list (pixel_color c v x y)) [0 .. cfg_width c - 1])"

definition chunk_bytes :: "config \<Rightarrow> view \<Rightarrow> int \<Rightarrow> int \<Rightarrow> byte list" where
  "chunk_bytes c v startY chunkSize =
     concat (map (row_bytes c v) [startY .. startY + chunkSize - 1])"

definition frame_size :: "config \<Rightarrow> nat" where
  "frame_size c = nat (3 * cfg_width c * cfg_height c)"

definition render_frame :: "config \<Rightarrow> view \<Rightarrow> byte list" where
  "render_frame c v =
     compute_rows (view_zoom v) (view_centerX v) (view_centerY v) 0 (cfg_height c)
       (cfg_width c) (cfg_height c) (cfg_max_iter c)
       (replicate (frame_size c) 0)"


section \<open>The frame protocol between master and workers\<close>

text \<open>
  Rank 0 is the master and rank \<open>i + 1\<close> is worker \<open>i\<close>. The transport is MPI: between one worker
  and the master, messages arrive in the order sent, so each direction of each pair is a queue.
  A message of tag 3 stands for the three sends of lines 282 to 284 (start row, size, pixel
  data), a message of tag 2 for the one or two sends of lines 210 or 218 and 219.
\<close>

datatype to_master =
    REQ
  | RESULT int int "byte list"
  | DONE

datatype to_worker =
    ASSIGN int int
  | TERMINATOR

text \<open>
  Where a worker is in its per-frame loop: about to send a request (line 256), waiting for the
  reply (line 259), or out of the loop after the \<open>break\<close> of line 263.
\<close>

datatype wpc = W_Request | W_Await | W_Left

text \<open>The master's reply to a request, lines 207 to 222, with the new value of \<open>nextRow\<close>.\<close>

definition assign_chunk :: "config \<Rightarrow> int \<Rightarrow> to_worker \<times> int" where
  "assign_chunk c nextRow =
     (if cfg_height c \<le> nextRow then (TERMINATOR, nextRow)
      else
        let chunkStart = nextRow;
            chunkEnd = (if cfg_height c < nextRow + CHUNK_SIZE then cfg_height c
                        else nextRow + CHUNK_SIZE);
            chunkSize = chunkEnd - chunkStart
        in (ASSIGN chunkStart chunkSize, chunkEnd))"

text \<open>
  The receive of line 231: up to \<open>3 * width * resultSize\<close> bytes are copied to
  \<open>fullBuffer + 3 * width * resultStartY\<close>. A receive area that leaves the buffer, or a message
  longer than the area, has no defined behaviour: the result is \<open>None\<close>.
\<close>

definition store_chunk :: "config \<Rightarrow> byte list \<Rightarrow> int \<Rightarrow> int \<Rightarrow> byte list \<Rightarrow> byte list option" where
  "store_chunk c fullBuffer resultStartY resultSize payload =
     (let off = 3 * cfg_width c * resultStartY;
          cnt = 3 * cfg_width c * resultSize
      in if 0 \<le> off \<and> 0 \<le> cnt \<and> off + cnt \<le> int (length fullBuffer)
            \<and> int (length payload) \<le> cnt
         then Some (take (nat off) fullBuffer @ payload
                      @ drop (nat off + length payload) fullBuffer)
         else None)"

record worker =
  pc :: wpc
  outbox :: "to_master list"
  inbox :: "to_worker list"

text \<open>
  The state of one frame. \<open>sent_assign\<close> and \<open>got_result\<close> are history variables, not
  variables of the program: the log of the chunks the master has assigned, and the log of the
  result headers whose pixel data it has copied, each with the index of the worker.
\<close>

record sys =
  nextRow :: int
  activeWorkers :: int
  fullBuffer :: "byte list"
  workers :: "worker list"
  sent_assign :: "(nat \<times> int \<times> int) list"
  got_result :: "(nat \<times> int \<times> int) list"

datatype outcome = Next sys | Blocked | Fault

text \<open>
  A schedule is a list of moves. \<open>Master i\<close>: the probe of line 199 returns the oldest message
  of worker \<open>i\<close> and the master handles it. \<open>Worker i buf\<close>: worker \<open>i\<close> runs to its next receive;
  \<open>buf\<close> is the content of the memory \<open>malloc\<close> returns, should this move need it.
\<close>

datatype move = Master nat | Worker nat "byte list"

definition master_step :: "config \<Rightarrow> nat \<Rightarrow> sys \<Rightarrow> outcome" where
  "master_step c i s =
     (if activeWorkers s \<le> 0 \<or> length (workers s) \<le> i then Blocked
      else
        let w = workers s ! i in
        case outbox w of
          [] \<Rightarrow> Blocked
        | REQ # rest \<Rightarrow>
            (case assign_chunk c (nextRow s) of
               (reply, chunkEnd) \<Rightarrow>
                 Next (s\<lparr>nextRow := chunkEnd,
                          workers := (workers s)[i := w\<lparr>outbox := rest, inbox := inbox w @ [reply]\<rparr>],
                          sent_assign :=
                            (case reply of
                               ASSIGN chunkStart chunkSize \<Rightarrow> sent_assign s @ [(i, chunkStart, chunkSize)]
                             | TERMINATOR \<Rightarrow> sent_assign s)\<rparr>))
        | RESULT resultStartY resultSize payload # rest \<Rightarrow>
            (case store_chunk c (fullBuffer s) resultStartY resultSize payload of
               None \<Rightarrow> Fault
             | Some fb \<Rightarrow>
                 Next (s\<lparr>fullBuffer := fb,
                          workers := (workers s)[i := w\<lparr>outbox := rest\<rparr>],
                          got_result := got_result s @ [(i, resultStartY, resultSize)]\<rparr>))
        | DONE # rest \<Rightarrow>
            Next (s\<lparr>activeWorkers := activeWorkers s - 1,
                     workers := (workers s)[i := w\<lparr>outbox := rest\<rparr>]\<rparr>))"

definition worker_step :: "config \<Rightarrow> view \<Rightarrow> nat \<Rightarrow> byte list \<Rightarrow> sys \<Rightarrow> outcome" where
  "worker_step c v i buf s =
     (if length (workers s) \<le> i then Blocked
      else
        let w = workers s ! i in
        case pc w of
          W_Request \<Rightarrow>
            Next (s\<lparr>workers := (workers s)[i := w\<lparr>pc := W_Await, outbox := outbox w @ [REQ]\<rparr>]\<rparr>)
        | W_Await \<Rightarrow>
            (case inbox w of
               [] \<Rightarrow> Blocked
             | TERMINATOR # rest \<Rightarrow>
                 Next (s\<lparr>workers :=
                   (workers s)[i := w\<lparr>pc := W_Left, outbox := outbox w @ [DONE], inbox := rest\<rparr>]\<rparr>)
             | ASSIGN startY chunkSize # rest \<Rightarrow>
                 if length buf \<noteq> nat (3 * cfg_width c * chunkSize) then Blocked
                 else
                   let localBuffer =
                         compute_rows (view_zoom v) (view_centerX v) (view_centerY v)
                           startY (startY + chunkSize) (cfg_width c) (cfg_height c)
                           (cfg_max_iter c) buf
                   in Next (s\<lparr>workers :=
                        (workers s)[i := w\<lparr>pc := W_Request,
                                             outbox := outbox w @ [RESULT startY chunkSize localBuffer],
                                             inbox := rest\<rparr>]\<rparr>))
        | W_Left \<Rightarrow> Blocked)"

definition step :: "config \<Rightarrow> view \<Rightarrow> move \<Rightarrow> sys \<Rightarrow> outcome" where
  "step c v mv s = (case mv of Master i \<Rightarrow> master_step c i s | Worker i buf \<Rightarrow> worker_step c v i buf s)"

fun exec :: "config \<Rightarrow> view \<Rightarrow> move list \<Rightarrow> sys \<Rightarrow> outcome" where
  "exec c v [] s = Next s"
| "exec c v (mv # mvs) s =
     (case step c v mv s of Next s' \<Rightarrow> exec c v mvs s' | Blocked \<Rightarrow> Blocked | Fault \<Rightarrow> Fault)"

text \<open>
  The start of a frame for \<open>world_size\<close> processes (lines 191 and 192), with \<open>fb\<close> the content of
  \<open>fullBuffer\<close> at that moment: what \<open>malloc\<close> returned, or the previous frame.
\<close>

definition frame_init :: "nat \<Rightarrow> byte list \<Rightarrow> sys" where
  "frame_init world_size fb =
     \<lparr>nextRow = 0, activeWorkers = int world_size - 1, fullBuffer = fb,
      workers = replicate (world_size - 1) \<lparr>pc = W_Request, outbox = [], inbox = []\<rparr>,
      sent_assign = [], got_result = []\<rparr>"

text \<open>The loop of line 196 is left; the master writes \<open>fullBuffer\<close> to the output.\<close>

definition frame_done :: "sys \<Rightarrow> bool" where
  "frame_done s \<longleftrightarrow> activeWorkers s \<le> 0"

text \<open>Row \<open>y\<close> lies in a logged chunk; byte \<open>j\<close> lies in the area a logged result was copied to.\<close>

definition covers :: "int \<Rightarrow> nat \<times> int \<times> int \<Rightarrow> bool" where
  "covers y e \<longleftrightarrow> (case e of (i, a, k) \<Rightarrow> a \<le> y \<and> y < a + k)"

definition writes :: "config \<Rightarrow> nat \<Rightarrow> nat \<times> int \<times> int \<Rightarrow> bool" where
  "writes c j e \<longleftrightarrow>
     (case e of (i, a, k) \<Rightarrow> 3 * cfg_width c * a \<le> int j \<and> int j < 3 * cfg_width c * a + 3 * cfg_width c * k)"

text \<open>
  A move writes byte \<open>j\<close> of the frame buffer when the value of that byte after the move does
  not depend on its value before: the move gives the same byte from the state and from the
  state with every byte of the frame buffer changed. \<open>write_count\<close> counts the moves of a
  schedule that write byte \<open>j\<close>.
\<close>

definition bumped :: "sys \<Rightarrow> sys" where
  "bumped s = s\<lparr>fullBuffer := map (\<lambda>b. b + 1) (fullBuffer s)\<rparr>"

definition step_writes :: "config \<Rightarrow> view \<Rightarrow> move \<Rightarrow> sys \<Rightarrow> nat \<Rightarrow> bool" where
  "step_writes c v mv s j \<longleftrightarrow>
     (case step c v mv s of
        Next s1 \<Rightarrow>
          (case step c v mv (bumped s) of
             Next s2 \<Rightarrow> j < length (fullBuffer s) \<and> fullBuffer s1 ! j = fullBuffer s2 ! j
           | Blocked \<Rightarrow> False
           | Fault \<Rightarrow> False)
      | Blocked \<Rightarrow> False
      | Fault \<Rightarrow> False)"

fun write_count :: "config \<Rightarrow> view \<Rightarrow> move list \<Rightarrow> sys \<Rightarrow> nat \<Rightarrow> nat" where
  "write_count c v [] s j = 0"
| "write_count c v (mv # mvs) s j =
     (case step c v mv s of
        Next s' \<Rightarrow> (if step_writes c v mv s j then 1 else 0) + write_count c v mvs s' j
      | Blocked \<Rightarrow> 0
      | Fault \<Rightarrow> 0)"

text \<open>The headers of the chunks on their way to a worker and back.\<close>

fun assign_hdrs :: "to_worker list \<Rightarrow> (int \<times> int) list" where
  "assign_hdrs [] = []"
| "assign_hdrs (ASSIGN a k # ms) = (a, k) # assign_hdrs ms"
| "assign_hdrs (TERMINATOR # ms) = assign_hdrs ms"

fun result_hdrs :: "to_master list \<Rightarrow> (int \<times> int) list" where
  "result_hdrs [] = []"
| "result_hdrs (RESULT a k p # ms) = (a, k) # result_hdrs ms"
| "result_hdrs (m # ms) = result_hdrs ms"

definition chunks_of :: "nat \<Rightarrow> (nat \<times> int \<times> int) list \<Rightarrow> (int \<times> int) list" where
  "chunks_of i es = map snd (filter (\<lambda>e. fst e = i) es)"

subsection \<open>Invariants of the frame protocol\<close>

fun only_results :: "to_master list \<Rightarrow> bool" where
  "only_results [] = True"
| "only_results (RESULT a k p # ms) = only_results ms"
| "only_results (m # ms) = False"

text \<open>What the queues of a worker can hold, by its place in the loop.\<close>

definition worker_ok :: "worker \<Rightarrow> bool" where
  "worker_ok w \<longleftrightarrow>
     (case pc w of
        W_Request \<Rightarrow> inbox w = [] \<and> only_results (outbox w)
      | W_Await \<Rightarrow>
          (inbox w = [] \<and> outbox w \<noteq> [] \<and> last (outbox w) = REQ \<and> only_results (butlast (outbox w)))
          \<or> (length (inbox w) = 1 \<and> only_results (outbox w))
      | W_Left \<Rightarrow>
          inbox w = []
          \<and> (outbox w = [] \<or> last (outbox w) = DONE \<and> only_results (butlast (outbox w))))"

text \<open>A worker counts as active until the master has received its \<open>DONE\<close>.\<close>

definition active :: "worker \<Rightarrow> int" where
  "active w = (if pc w = W_Left \<and> outbox w = [] then 0 else 1)"

definition inv_rows :: "config \<Rightarrow> sys \<Rightarrow> bool" where
  "inv_rows c s \<longleftrightarrow>
     0 \<le> nextRow s \<and> nextRow s \<le> cfg_height c \<and> length (fullBuffer s) = frame_size c"

definition inv_workers :: "sys \<Rightarrow> bool" where
  "inv_workers s \<longleftrightarrow>
     (\<forall>w \<in> set (workers s). worker_ok w)
     \<and> activeWorkers s = sum_list (map active (workers s))"

definition inv_drain :: "config \<Rightarrow> sys \<Rightarrow> bool" where
  "inv_drain c s \<longleftrightarrow>
     (\<forall>w \<in> set (workers s). TERMINATOR \<in> set (inbox w) \<or> pc w = W_Left \<longrightarrow> cfg_height c \<le> nextRow s)"

text \<open>
  Per worker, in order: the chunks assigned to it are those whose result the master has
  copied, then those whose result is on its way, then those still on their way to the worker.
\<close>

definition inv_fifo :: "sys \<Rightarrow> bool" where
  "inv_fifo s \<longleftrightarrow>
     (\<forall>i < length (workers s).
        chunks_of i (sent_assign s)
          = chunks_of i (got_result s) @ result_hdrs (outbox (workers s ! i))
              @ assign_hdrs (inbox (workers s ! i)))
     \<and> (\<forall>e \<in> set (got_result s). fst e < length (workers s))"

definition inv_log :: "sys \<Rightarrow> bool" where
  "inv_log s \<longleftrightarrow>
     (\<forall>e \<in> set (sent_assign s).
        case e of (i, a, k) \<Rightarrow> i < length (workers s) \<and> 0 \<le> a \<and> 0 < k \<and> a + k \<le> nextRow s)
     \<and> (\<forall>y. 0 \<le> y \<and> y < nextRow s \<longrightarrow> length (filter (covers y) (sent_assign s)) = 1)"

definition inv_data :: "config \<Rightarrow> view \<Rightarrow> sys \<Rightarrow> bool" where
  "inv_data c v s \<longleftrightarrow>
     (\<forall>w \<in> set (workers s). \<forall>a k p. RESULT a k p \<in> set (outbox w) \<longrightarrow> p = chunk_bytes c v a k)
     \<and> (\<forall>j < frame_size c. (\<exists>e \<in> set (got_result s). writes c j e)
            \<longrightarrow> fullBuffer s ! j = render_frame c v ! j)"

definition inv :: "config \<Rightarrow> view \<Rightarrow> sys \<Rightarrow> bool" where
  "inv c v s \<longleftrightarrow>
     inv_rows c s \<and> inv_workers s \<and> inv_drain c s \<and> inv_fifo s \<and> inv_log s \<and> inv_data c v s"

text \<open>A bound on the number of moves that remain in a frame.\<close>

fun up_weight :: "to_master \<Rightarrow> nat" where
  "up_weight REQ = 3"
| "up_weight (RESULT a k p) = 1"
| "up_weight DONE = 1"

fun down_weight :: "to_worker \<Rightarrow> nat" where
  "down_weight (ASSIGN a k) = 6"
| "down_weight TERMINATOR = 2"

definition weight :: "worker \<Rightarrow> nat" where
  "weight w =
     (if pc w = W_Request then 4 else 0)
     + sum_list (map up_weight (outbox w)) + sum_list (map down_weight (inbox w))"

definition potential :: "config \<Rightarrow> sys \<Rightarrow> nat" where
  "potential c s = 4 * nat (cfg_height c - nextRow s) + sum_list (map weight (workers s))"

section \<open>The loop over the input stream\<close>

text \<open>
  What \<open>fgets\<close> and \<open>sscanf\<close> make of one line of the input: three numbers, or a line on which
  \<open>sscanf\<close> does not return 3. The end of the list is the end of the stream.
\<close>

datatype input_line = Line real real real | Malformed

text \<open>
  How the master ends: \<open>Exit code frames diagnostic zooms\<close> with the exit code, the frames
  written to the output, whether the diagnostic of line 169 was printed, and the values of
  \<open>zoom\<close> it broadcast. \<open>Stuck\<close>: the schedule given for a frame is not a run of that frame to
  its end. \<open>Crash\<close>: a frame faulted.
\<close>

datatype run_result = Exit int "byte list list" bool "real list" | Stuck | Crash

text \<open>
  The loop of line 160 on rank 0, one schedule per frame; \<open>fb\<close> is the content of
  \<open>fullBuffer\<close>. After the loop the master returns 0 (line 299).
\<close>

fun main_master :: "config \<Rightarrow> nat \<Rightarrow> input_line list \<Rightarrow> move list list \<Rightarrow> byte list \<Rightarrow> run_result" where
  "main_master c world_size [] scheds fb = Exit 0 [] False [- 1]"
| "main_master c world_size (Malformed # rest) scheds fb = Exit 0 [] True [- 1]"
| "main_master c world_size (Line zoom centerX centerY # rest) scheds fb =
     (if zoom \<le> 0 then Exit 0 [] False [zoom]
      else
        case scheds of
          [] \<Rightarrow> Stuck
        | sch # scheds' \<Rightarrow>
            (case exec c \<lparr>view_zoom = zoom, view_centerX = centerX, view_centerY = centerY\<rparr> sch
                    (frame_init world_size fb) of
               Fault \<Rightarrow> Crash
             | Blocked \<Rightarrow> Stuck
             | Next s \<Rightarrow>
                 if \<not> frame_done s then Stuck
                 else
                   (case main_master c world_size rest scheds' (fullBuffer s) of
                      Exit code frames diagnostic zooms \<Rightarrow>
                        Exit code (fullBuffer s # frames) diagnostic (zoom # zooms)
                    | Stuck \<Rightarrow> Stuck
                    | Crash \<Rightarrow> Crash)))"

text \<open>
  The same loop on a worker, given the values of \<open>zoom\<close> it receives: it leaves the loop at
  the first \<open>zoom \<le> 0\<close> and returns 0; with no broadcast left it waits.
\<close>

fun main_worker :: "real list \<Rightarrow> int option" where
  "main_worker [] = None"
| "main_worker (zoom # zooms) = (if zoom \<le> 0 then Some 0 else main_worker zooms)"

text \<open>A line that starts a frame, and the view it asks for.\<close>

fun renders :: "input_line \<Rightarrow> bool" where
  "renders (Line zoom centerX centerY) \<longleftrightarrow> 0 < zoom"
| "renders Malformed \<longleftrightarrow> False"

fun view_of :: "input_line \<Rightarrow> view" where
  "view_of (Line zoom centerX centerY) = \<lparr>view_zoom = zoom, view_centerX = centerX, view_centerY = centerY\<rparr>"
| "view_of Malformed = \<lparr>view_zoom = - 1, view_centerX = 0, view_centerY = 0\<rparr>"

section \<open>Properties of the escape-time kernel\<close>

lemma mandel_loop_continue:
  "x * x + y * y \<le> 4 \<Longrightarrow> iter < max_iter \<Longrightarrow>
     mandel_loop x0 y0 max_iter x y iter
       = mandel_loop x0 y0 max_iter (x * x - y * y + x0) (2 * x * y + y0) (iter + 1)"
  by (subst mandel_loop.simps) simp

lemma mandel_loop_exit:
  "\<not> (x * x + y * y \<le> 4 \<and> iter < max_iter) \<Longrightarrow>
     mandel_loop x0 y0 max_iter x y iter = (x, y, iter)"
  by (subst mandel_loop.simps) auto

lemma mandel_loop_origin:
  "iter \<le> max_iter \<Longrightarrow> mandel_loop 0 0 max_iter 0 0 iter = (0, 0, max_iter)"
proof (induction "nat (max_iter - iter)" arbitrary: iter)
  case 0
  then have "iter = max_iter" by simp
  then show ?case by (simp add: mandel_loop_exit)
next
  case (Suc n)
  then have lt: "iter < max_iter" and n: "n = nat (max_iter - (iter + 1))" by linarith+
  have "mandel_loop 0 0 max_iter 0 0 iter = mandel_loop 0 0 max_iter 0 0 (iter + 1)"
    using lt by (simp add: mandel_loop_continue)
  also have "\<dots> = (0, 0, max_iter)" using Suc.hyps(1) [OF n] lt by simp
  finally show ?case .
qed

lemma mandel_loop_2_0:
  assumes "3 \<le> max_iter"
  shows "mandel_loop 2 0 max_iter 0 0 0 = (6, 0, 2)"
proof -
  have "mandel_loop 2 0 max_iter 0 0 0 = mandel_loop 2 0 max_iter 2 0 1"
    using assms by (simp add: mandel_loop_continue)
  also have "\<dots> = mandel_loop 2 0 max_iter 6 0 2"
    using assms by (simp add: mandel_loop_continue)
  also have "\<dots> = (6, 0, 2)"
    by (simp add: mandel_loop_exit)
  finally show ?thesis .
qed

lemma ln_36: "ln (36::real) = 2 * ln 6"
proof -
  have "ln ((6::real) ^ 2) = real 2 * ln 6" by (rule ln_realpow)
  then show ?thesis by simp
qed

lemma smooth_value_6: "smooth_value 6 0 2 = 3 - log 2 (log 2 6)"
  by (simp add: smooth_value_def Let_def ln_36 log_def)

lemma log2_4: "log 2 (4::real) = 2"
  using log_pow_cancel [of "2::real" 2] by simp

lemma log2_16: "log 2 (16::real) = 4"
  using log_pow_cancel [of "2::real" 4] by simp

lemma log2_6_bounds: "2 < log 2 (6::real)" "log 2 (6::real) \<le> 4"
proof -
  have "log 2 (4::real) < log 2 6" by (subst log_less_cancel_iff) simp_all
  then show "2 < log 2 (6::real)" by (simp only: log2_4)
  have "log 2 (6::real) \<le> log 2 16" by (subst log_le_cancel_iff) simp_all
  then show "log 2 (6::real) \<le> 4" by (simp only: log2_16)
qed

lemma loglog_6_bounds: "1 < log 2 (log 2 6)" "log 2 (log 2 6) \<le> 2"
proof -
  have "log 2 2 < log 2 (log 2 6)"
    using log2_6_bounds(1) by (subst log_less_cancel_iff) simp_all
  then show "1 < log 2 (log 2 6)" by simp
  have "log 2 (log 2 6) \<le> log 2 4"
    using log2_6_bounds by (subst log_le_cancel_iff) simp_all
  then show "log 2 (log 2 6) \<le> 2" by (simp only: log2_4)
qed

lemma c_trunc_smooth_6: "c_trunc (smooth_value 6 0 2) = 1"
proof -
  have "1 \<le> smooth_value 6 0 2" "smooth_value 6 0 2 < 2"
    using loglog_6_bounds by (simp_all add: smooth_value_6)
  then show ?thesis by (simp add: c_trunc_def floor_eq_iff)
qed

lemma mandelbrot_2_0: "3 \<le> max_iter \<Longrightarrow> mandelbrot 2 0 max_iter = 1"
  by (simp add: mandelbrot_def mandel_loop_2_0 c_trunc_smooth_6)





lemma mandelbrot_origin: "0 \<le> max_iter \<Longrightarrow> mandelbrot 0 0 max_iter = max_iter"
  by (simp add: mandelbrot_def mandel_loop_origin)

lemma iteration_to_color_black:
  "of_int max_iter \<le> i \<Longrightarrow> iteration_to_color i max_iter = (0, 0, 0)"
  by (simp add: iteration_to_color_def)

lemma uchar_255: "uchar_of_double 255 = 255" "uchar_of_double 0 = 0"
  by (simp_all add: uchar_of_double_def c_trunc_def)

lemma iteration_to_color_not_black:
  "i < of_int max_iter \<Longrightarrow> iteration_to_color i max_iter \<noteq> (0, 0, 0)"
  by (simp add: iteration_to_color_def Let_def uchar_255)

lemma iteration_to_color_neg: "iteration_to_color (- 1) 200 = (255, 249, 0)"
  by (simp add: iteration_to_color_def Let_def c_fmod_def c_trunc_def uchar_of_double_def)

lemma hsv_triples_neg:
  "hsv_triples (- 1) 200
     = [(255, 7, 0), (7, 255, 0), (0, 255, 7), (0, 7, 255), (7, 0, 255), (255, 0, 7)]"
  by (simp add: hsv_triples_def Let_def rmod_def c_trunc_def)

text \<open>
  Far from the origin the smooth count, and with it the result of the kernel, is negative: at
  \<open>(300, 0)\<close> the loop ends with \<open>iter = 1\<close> and the smooth count \<open>2 - log\<^sub>2 (log\<^sub>2 300)\<close> lies
  in \<open>(-2, -1]\<close>.
\<close>

lemma log2_256: "log 2 (256::real) = 8"
  using log_pow_cancel [of "2::real" 8] by simp

lemma log2_8: "log 2 (8::real) = 3"
  using log_pow_cancel [of "2::real" 3] by simp

lemma mandelbrot_far_point:
  assumes "2 \<le> max_iter"
  shows "mandelbrot 300 0 max_iter = - 1"
proof -
  have "mandel_loop 300 0 max_iter 0 0 0 = mandel_loop 300 0 max_iter 300 0 1"
    using assms by (simp add: mandel_loop_continue)
  also have "\<dots> = (300, 0, 1)" by (simp add: mandel_loop_exit)
  finally have L: "mandel_loop 300 0 max_iter 0 0 0 = (300, 0, 1)" .
  have "ln ((300::real) ^ 2) = real 2 * ln 300" by (rule ln_realpow)
  then have a: "ln (90000::real) = 2 * ln 300" by simp
  have v: "smooth_value 300 0 1 = 2 - log 2 (log 2 300)"
    by (simp add: smooth_value_def Let_def a log_def)
  have "log 2 (256::real) \<le> log 2 300" by (subst log_le_cancel_iff) simp_all
  then have l8: "8 \<le> log 2 (300::real)" by (simp only: log2_256)
  have "log 2 (300::real) < log 2 65536" by (subst log_less_cancel_iff) simp_all
  moreover have "log 2 (65536::real) = 16" using log_pow_cancel [of "2::real" 16] by simp
  ultimately have l16: "log 2 (300::real) < 16" by simp
  have "log 2 8 \<le> log 2 (log 2 300)" using l8 by (subst log_le_cancel_iff) simp_all
  then have b3: "3 \<le> log 2 (log 2 300)" by (simp only: log2_8)
  have "log 2 (log 2 300) < log 2 16" using l8 l16 by (subst log_less_cancel_iff) simp_all
  then have b4: "log 2 (log 2 300) < 4" by (simp only: log2_16)
  have "c_trunc (smooth_value 300 0 1) = - 1"
    using b3 b4 by (simp add: v c_trunc_def ceiling_eq_iff)
  then show ?thesis using assms by (simp add: mandelbrot_def L)
qed

subsection \<open>The kernel in the arithmetic of the platform\<close>

lemma mandel_loop_fp_continue:
  "norm_fp F x y \<le> 4 \<Longrightarrow> iter < max_iter \<Longrightarrow>
     mandel_loop_fp F x0 y0 max_iter x y iter
       = mandel_loop_fp F x0 y0 max_iter
           (fp_round F (fp_round F (fp_round F (x * x) - fp_round F (y * y)) + x0))
           (fp_round F (fp_round F (fp_round F (2 * x) * y) + y0)) (iter + 1)"
  by (subst mandel_loop_fp.simps) simp

lemma mandel_loop_fp_exit:
  "\<not> (norm_fp F x y \<le> 4 \<and> iter < max_iter) \<Longrightarrow>
     mandel_loop_fp F x0 y0 max_iter x y iter = (x, y, iter)"
  by (subst mandel_loop_fp.simps) auto

lemma mandel_loop_fp_bounds:
  "iter \<le> max_iter \<Longrightarrow> mandel_loop_fp F x0 y0 max_iter x y iter = (x', y', iter') \<Longrightarrow>
     iter \<le> iter' \<and> iter' \<le> max_iter \<and> (iter' < max_iter \<longrightarrow> 4 < norm_fp F x' y')"
proof (induction F x0 y0 max_iter x y iter rule: mandel_loop_fp.induct)
  case (1 F x0 y0 max_iter x y iter)
  show ?case
  proof (cases "norm_fp F x y \<le> 4 \<and> iter < max_iter")
    case True
    with "1.prems" have "mandel_loop_fp F x0 y0 max_iter
           (fp_round F (fp_round F (fp_round F (x * x) - fp_round F (y * y)) + x0))
           (fp_round F (fp_round F (fp_round F (2 * x) * y) + y0)) (iter + 1) = (x', y', iter')"
      by (simp add: mandel_loop_fp_continue)
    with "1.IH" True have "iter + 1 \<le> iter' \<and> iter' \<le> max_iter \<and> (iter' < max_iter \<longrightarrow> 4 < norm_fp F x' y')"
      by simp
    then show ?thesis by simp
  next
    case False
    with "1.prems" have "(x, y, iter) = (x', y', iter')"
      by (simp add: mandel_loop_fp_exit)
    with False "1.prems" show ?thesis by auto
  qed
qed


lemma norm_fp_exact: "norm_fp exact_fpu x y = x * x + y * y"
  by (simp add: norm_fp_def exact_fpu_def)

lemma mandel_loop_fp_exact:
  "mandel_loop_fp exact_fpu x0 y0 max_iter x y iter = mandel_loop x0 y0 max_iter x y iter"
proof (induction x0 y0 max_iter x y iter rule: mandel_loop.induct)
  case (1 x0 y0 max_iter x y iter)
  show ?case
  proof (cases "x * x + y * y \<le> 4 \<and> iter < max_iter")
    case True
    then have "mandel_loop_fp exact_fpu x0 y0 max_iter x y iter
        = mandel_loop_fp exact_fpu x0 y0 max_iter (x * x - y * y + x0) (2 * x * y + y0) (iter + 1)"
      using mandel_loop_fp_continue [of exact_fpu x y iter max_iter x0 y0]
      by (simp add: norm_fp_exact) (simp add: exact_fpu_def)
    also have "\<dots> = mandel_loop x0 y0 max_iter (x * x - y * y + x0) (2 * x * y + y0) (iter + 1)"
      using "1.IH" True by simp
    also have "\<dots> = mandel_loop x0 y0 max_iter x y iter"
      using True by (simp add: mandel_loop_continue)
    finally show ?thesis .
  next
    case False
    then show ?thesis by (simp add: mandel_loop_fp_exit mandel_loop_exit norm_fp_exact)
  qed
qed

lemma smooth_value_fp_exact: "smooth_value_fp exact_fpu x y iter = smooth_value x y iter"
  by (simp add: smooth_value_fp_def nu_fp_def norm_fp_def smooth_value_def exact_fpu_def Let_def)

lemma mandelbrot_fp_exact: "mandelbrot_fp exact_fpu x0 y0 max_iter = mandelbrot x0 y0 max_iter"
  by (simp add: mandelbrot_fp_def mandelbrot_def mandel_loop_fp_exact smooth_value_fp_exact
      split: prod.split)

lemma nu_fp_nonneg:
  assumes ok: "fpu_ok F" and esc: "4 < norm_fp F x y"
  shows "0 \<le> nu_fp F x y"
proof -
  define l2 where "l2 = fp_log F 2"
  from ok have mono: "\<And>a b. a \<le> b \<Longrightarrow> fp_round F a \<le> fp_round F b"
    and ints: "\<And>n :: int. \<bar>n\<bar> \<le> 2 ^ 53 \<Longrightarrow> fp_round F (of_int n) = of_int n"
    and l2pos: "0 < l2" and l2r: "fp_round F l2 = l2"
    and big: "\<And>a. 4 < a \<Longrightarrow> 2 * l2 \<le> fp_log F a"
    and one: "\<And>a. 1 \<le> a \<Longrightarrow> 0 \<le> fp_log F a"
    by (simp_all add: fpu_ok_def l2_def)
  have r0: "fp_round F 0 = 0" using ints [of 0] by simp
  have r1: "fp_round F 1 = 1" using ints [of 1] by simp
  define log_zn where "log_zn = fp_round F (fp_log F (norm_fp F x y) / 2)"
  have "l2 \<le> fp_log F (norm_fp F x y) / 2" using big [OF esc] by simp
  then have "fp_round F l2 \<le> log_zn" unfolding log_zn_def by (rule mono)
  then have "l2 \<le> log_zn" by (simp add: l2r)
  then have "1 \<le> log_zn / l2" using l2pos by simp
  then have "fp_round F 1 \<le> fp_round F (log_zn / l2)" by (rule mono)
  then have "1 \<le> fp_round F (log_zn / l2)" by (simp add: r1)
  then have "0 \<le> fp_log F (fp_round F (log_zn / l2))" by (rule one)
  then have "0 \<le> fp_log F (fp_round F (log_zn / l2)) / l2" using l2pos by simp
  then have "fp_round F 0 \<le> fp_round F (fp_log F (fp_round F (log_zn / l2)) / l2)" by (rule mono)
  then show ?thesis by (simp add: r0 nu_fp_def Let_def log_zn_def l2_def)
qed

lemma smooth_value_fp_le:
  assumes ok: "fpu_ok F" and esc: "4 < norm_fp F x y" and i: "0 \<le> iter" "iter < INT_MAX"
  shows "smooth_value_fp F x y iter \<le> of_int iter + 1"
proof -
  from ok have mono: "\<And>a b. a \<le> b \<Longrightarrow> fp_round F a \<le> fp_round F b"
    and ints: "\<And>n :: int. \<bar>n\<bar> \<le> 2 ^ 53 \<Longrightarrow> fp_round F (of_int n) = of_int n"
    by (simp_all add: fpu_ok_def)
  have "of_int (iter + 1) - nu_fp F x y \<le> of_int (iter + 1)"
    using nu_fp_nonneg [OF ok esc] by simp
  then have "smooth_value_fp F x y iter \<le> fp_round F (of_int (iter + 1))"
    unfolding smooth_value_fp_def by (rule mono)
  moreover have "\<bar>iter + 1\<bar> \<le> 2 ^ 53" using i by (simp add: INT_MAX_def)
  ultimately show ?thesis using ints [of "iter + 1"] by simp
qed






lemma c_trunc_le: "v \<le> of_int k \<Longrightarrow> 0 \<le> k \<Longrightarrow> c_trunc v \<le> k"
  by (auto simp: c_trunc_def floor_le_iff ceiling_le_iff)

text \<open>
  The loop makes at most \<open>maxIter\<close> passes, whatever the arithmetic. The result of the kernel is
  at most \<open>maxIter\<close>, and it is \<open>maxIter\<close> when the loop has made all its passes.
\<close>

lemma mandelbrot_fp_le:
  assumes "fpu_ok F" and "0 \<le> max_iter" and "max_iter \<le> INT_MAX"
  shows "mandelbrot_fp F x0 y0 max_iter \<le> max_iter"
proof -
  obtain x y iter where L: "mandel_loop_fp F x0 y0 max_iter 0 0 0 = (x, y, iter)"
    by (metis prod_cases3)
  from mandel_loop_fp_bounds [OF assms(2) L]
  have b: "0 \<le> iter" "iter \<le> max_iter" "iter < max_iter \<longrightarrow> 4 < norm_fp F x y" by auto
  show ?thesis
  proof (cases "iter = max_iter")
    case True
    then show ?thesis by (simp add: mandelbrot_fp_def L)
  next
    case False
    with b have lt: "iter < max_iter" and esc: "4 < norm_fp F x y" by auto
    from lt assms(3) have im: "iter < INT_MAX" by simp
    have "smooth_value_fp F x y iter \<le> of_int (iter + 1)"
      using smooth_value_fp_le [OF assms(1) esc b(1) im] by simp
    then have "c_trunc (smooth_value_fp F x y iter) \<le> iter + 1"
      using b(1) by (intro c_trunc_le) simp_all
    with lt False show ?thesis by (simp add: mandelbrot_fp_def L)
  qed
qed

lemma mandelbrot_fp_full:
  "mandel_loop_fp F x0 y0 max_iter 0 0 0 = (x, y, max_iter) \<Longrightarrow>
     mandelbrot_fp F x0 y0 max_iter = max_iter"
  by (simp add: mandelbrot_fp_def)






text \<open>
  Claim C6, as the specification states it, fails at \<open>(cx, cy) = (2, 0)\<close>: the first loop test
  sees \<open>x = y = 0\<close> and passes, and the loop ends with \<open>iter = 2\<close>, not 0 (here with
  \<open>maxIter = 200\<close>).
\<close>

theorem kernel_two_counterexample:
  "mandel_loop 2 0 200 0 0 0 = (6, 0, 2) \<and> snd (snd (mandel_loop 2 0 200 0 0 0)) \<noteq> 0"
  by (simp add: mandel_loop_2_0)

text \<open>
  Claim C6, amended. For \<open>(cx, cy) = (0, 0)\<close> the kernel returns \<open>maxIter\<close>, which the color
  mapper maps to \<open>(0, 0, 0)\<close>. For \<open>(cx, cy) = (2, 0)\<close> and \<open>maxIter \<ge> 3\<close> the loop passes its
  first two tests and ends at the third with \<open>iter = 2\<close> and \<open>(x, y) = (6, 0)\<close>; the smooth
  count \<open>3 - log\<^sub>2 (log\<^sub>2 6)\<close> of the \<open>return\<close> expression is well defined and lies in
  \<open>[1, 2)\<close>.
\<close>

theorem kernel_origin_and_two:
  assumes "0 < max_iter"
  shows "mandelbrot 0 0 max_iter = max_iter
       \<and> iteration_to_color (of_int (mandelbrot 0 0 max_iter)) max_iter = (0, 0, 0)
       \<and> (3 \<le> max_iter \<longrightarrow>
            mandel_loop 2 0 max_iter 0 0 0 = (6, 0, 2)
            \<and> smooth_value 6 0 2 = 3 - log 2 (log 2 6)
            \<and> 1 \<le> smooth_value 6 0 2 \<and> smooth_value 6 0 2 < 2)"
proof -
  have o: "mandelbrot 0 0 max_iter = max_iter" using assms by (simp add: mandelbrot_origin)
  then have b: "iteration_to_color (of_int (mandelbrot 0 0 max_iter)) max_iter = (0, 0, 0)"
    by (simp add: iteration_to_color_black)
  have s: "1 \<le> smooth_value 6 0 2" "smooth_value 6 0 2 < 2"
    using loglog_6_bounds by (simp_all add: smooth_value_6)
  from o b s smooth_value_6 mandel_loop_2_0 show ?thesis by blast
qed

theorem kernel_origin_and_two_witness:
  "(0::int) < 200 \<and> mandelbrot 0 0 200 = 200
     \<and> iteration_to_color (of_int (mandelbrot 0 0 200)) 200 = (0, 0, 0)
     \<and> mandel_loop 2 0 200 0 0 0 = (6, 0, 2)"
proof -
  have h: "(0::int) < 200" and t: "(3::int) \<le> 200" by simp_all
  from kernel_origin_and_two [OF h] h t show ?thesis by blast
qed

text \<open>
  Claim C5 at a point far from the origin. For \<open>(cx, cy) = (300, 0)\<close> and \<open>maxIter = 200\<close> the
  kernel returns \<open>-1\<close>. The color mapper then has \<open>t = -0.005\<close> and the hue \<open>-1.8\<close>; \<open>fmod\<close> keeps
  the sign, \<open>x = -0.03\<close>, and the green channel is the cast of \<open>-7.65\<close>, the byte 249. The
  formula of the specification has \<open>X = 1 - |((H / 60) mod 2) - 1| = 0.03\<close>: whichever of the
  six triples is selected, its bytes are among 255, 7 and 0.
\<close>

theorem color_of_negative_count:
  "mandelbrot 300 0 200 = - 1
     \<and> iteration_to_color (of_int (mandelbrot 300 0 200)) 200 = (255, 249, 0)
     \<and> hsv_triples (- 1) 200
         = [(255, 7, 0), (7, 255, 0), (0, 255, 7), (0, 7, 255), (7, 0, 255), (255, 0, 7)]"
  by (simp add: mandelbrot_far_point iteration_to_color_neg hsv_triples_neg)

section \<open>Properties of the row-chunk renderer\<close>

lemma upto_as_upt: "[s .. s + int n - 1] = map (\<lambda>k. s + int k) [0..<n]"
proof (induction n)
  case 0
  then show ?case by simp
next
  case (Suc n)
  have "[s .. s + int (Suc n) - 1] = [s .. s + int n - 1] @ [s + int n]"
    using upto_rec2 [of s "s + int n"] by simp
  with Suc show ?case by simp
qed

lemma length_rgb_list [simp]: "length (rgb_list rgb) = 3"
  by (cases rgb) (simp add: rgb_list_def)

lemma put_rgb_append:
  assumes "length pre = i" "3 \<le> length suf"
  shows "put_rgb (pre @ suf) i rgb = pre @ rgb_list rgb @ drop 3 suf"
proof -
  obtain a b c rest where suf: "suf = a # b # c # rest"
    using assms(2) by (cases suf; cases "tl suf"; cases "tl (tl suf)") auto
  obtain r g bl where rgb: "rgb = (r, g, bl)" by (cases rgb)
  show ?thesis
    using assms(1) by (simp add: put_rgb_def rgb suf rgb_list_def list_update_append)
qed

lemma length_concat_rgb:
  "length (concat (map (\<lambda>x. rgb_list (f x)) xs)) = 3 * length xs"
  by (induction xs) simp_all

lemma fold_put_rgb:
  fixes f :: "int \<Rightarrow> byte \<times> byte \<times> byte" and idx :: "int \<Rightarrow> nat"
  assumes "\<And>x. x < n \<Longrightarrow> idx (int x) = base + 3 * x" "base + 3 * n \<le> length buf"
  shows "fold (\<lambda>x b. put_rgb b (idx x) (f x)) (map int [0..<n]) buf
         = take base buf @ concat (map (\<lambda>x. rgb_list (f (int x))) [0..<n]) @ drop (base + 3 * n) buf"
  using assms
proof (induction n)
  case 0
  then show ?case by simp
next
  case (Suc n)
  let ?C = "concat (map (\<lambda>x. rgb_list (f (int x))) [0..<n])"
  have ih: "fold (\<lambda>x b. put_rgb b (idx x) (f x)) (map int [0..<n]) buf
         = take base buf @ ?C @ drop (base + 3 * n) buf"
    using Suc by simp
  have len: "length (take base buf @ ?C) = base + 3 * n"
    using Suc.prems(2) by (simp add: length_concat_rgb)
  have suf: "3 \<le> length (drop (base + 3 * n) buf)" using Suc.prems(2) by simp
  have i: "idx (int n) = base + 3 * n" using Suc.prems(1) by simp
  have "put_rgb ((take base buf @ ?C) @ drop (base + 3 * n) buf) (base + 3 * n) (f (int n))
      = (take base buf @ ?C) @ rgb_list (f (int n)) @ drop 3 (drop (base + 3 * n) buf)"
    using len suf by (rule put_rgb_append)
  moreover have "3 + (base + 3 * n) = base + 3 * Suc n" by simp
  ultimately show ?case
    by (simp add: ih i del: mult_Suc_right)
qed

lemma row_bytes_upt:
  assumes "0 \<le> cfg_width c"
  shows "row_bytes c v y
         = concat (map (\<lambda>x. rgb_list (pixel_color c v (int x) y)) [0..<nat (cfg_width c)])"
proof -
  have "[0 .. cfg_width c - 1] = map (\<lambda>k. 0 + int k) [0..<nat (cfg_width c)]"
    using upto_as_upt [of 0 "nat (cfg_width c)"] assms by simp
  then show ?thesis by (simp add: row_bytes_def comp_def)
qed

lemma length_row_bytes:
  "0 \<le> cfg_width c \<Longrightarrow> length (row_bytes c v y) = 3 * nat (cfg_width c)"
  by (simp add: row_bytes_upt length_concat_rgb)

lemma compute_row:
  assumes w: "0 \<le> cfg_width c" and len: "3 * k * nat (cfg_width c) + 3 * nat (cfg_width c) \<le> length buf"
  shows "fold (\<lambda>x b. put_rgb b (nat ((int k * cfg_width c + x) * 3)) (pixel_color c v x y))
           [0 .. cfg_width c - 1] buf
         = take (3 * k * nat (cfg_width c)) buf @ row_bytes c v y
             @ drop (3 * k * nat (cfg_width c) + 3 * nat (cfg_width c)) buf"
proof -
  define W where "W = nat (cfg_width c)"
  have wW: "cfg_width c = int W" using w by (simp add: W_def)
  have l: "[0 .. cfg_width c - 1] = map int [0..<W]"
    using upto_as_upt [of 0 W] by (simp add: wW)
  have idx: "nat ((int k * cfg_width c + int x) * 3) = 3 * k * W + 3 * x" for x
  proof -
    have "(int k * cfg_width c + int x) * 3 = int (3 * k * W + 3 * x)" by (simp add: wW)
    then show ?thesis by (simp only: nat_int)
  qed
  have "fold (\<lambda>x b. put_rgb b (nat ((int k * cfg_width c + x) * 3)) (pixel_color c v x y))
           (map int [0..<W]) buf
        = take (3 * k * W) buf @ concat (map (\<lambda>x. rgb_list (pixel_color c v (int x) y)) [0..<W])
            @ drop (3 * k * W + 3 * W) buf"
  proof (rule fold_put_rgb)
    show "nat ((int k * cfg_width c + int x) * 3) = 3 * k * W + 3 * x" for x by (rule idx)
    show "3 * k * W + 3 * W \<le> length buf" using len by (simp add: W_def)
  qed
  then show ?thesis
    by (simp only: l row_bytes_upt [OF w] W_def [symmetric])
qed

lemma fold_rows:
  fixes F :: "int \<Rightarrow> byte list \<Rightarrow> byte list"
  assumes F: "\<And>k b. k < m \<Longrightarrow> 3 * k * W + 3 * W \<le> length b \<Longrightarrow>
                F (s + int k) b = take (3 * k * W) b @ row (s + int k) @ drop (3 * k * W + 3 * W) b"
    and row: "\<And>y. length (row y) = 3 * W"
    and len: "3 * m * W \<le> length buf"
  shows "fold F (map (\<lambda>k. s + int k) [0..<m]) buf
         = concat (map (\<lambda>k. row (s + int k)) [0..<m]) @ drop (3 * m * W) buf"
  using F len
proof (induction m)
  case 0
  then show ?case by simp
next
  case (Suc m)
  let ?C = "concat (map (\<lambda>k. row (s + int k)) [0..<m])"
  have lenC: "length ?C = 3 * m * W"
    by (induction m) (simp_all add: row algebra_simps)
  have le: "3 * m * W + 3 * W \<le> length buf" using Suc.prems(2) by (simp add: algebra_simps)
  have ih: "fold F (map (\<lambda>k. s + int k) [0..<m]) buf = ?C @ drop (3 * m * W) buf"
    using Suc.IH Suc.prems le by simp
  have "F (s + int m) (?C @ drop (3 * m * W) buf)
      = take (3 * m * W) (?C @ drop (3 * m * W) buf) @ row (s + int m)
          @ drop (3 * m * W + 3 * W) (?C @ drop (3 * m * W) buf)"
    using le by (intro Suc.prems(1)) (simp_all add: lenC)
  also have "\<dots> = ?C @ row (s + int m) @ drop (3 * Suc m * W) buf"
    using le by (simp add: lenC algebra_simps)
  finally show ?case by (simp add: ih)
qed

lemma chunk_bytes_upt:
  "chunk_bytes c v s (int m) = concat (map (\<lambda>k. row_bytes c v (s + int k)) [0..<m])"
  by (simp add: chunk_bytes_def upto_as_upt comp_def)

lemma compute_rows_chunk:
  assumes w: "0 \<le> cfg_width c" and se: "startY \<le> endY"
    and len: "length buffer = nat (3 * cfg_width c * (endY - startY))"
  shows "compute_rows (view_zoom v) (view_centerX v) (view_centerY v) startY endY
           (cfg_width c) (cfg_height c) (cfg_max_iter c) buffer
         = chunk_bytes c v startY (endY - startY)"
proof -
  define W where "W = nat (cfg_width c)"
  define m where "m = nat (endY - startY)"
  define F where "F = (\<lambda>y. fold (\<lambda>x b.
      put_rgb b (nat (((y - startY) * cfg_width c + x) * 3)) (pixel_color c v x y))
      [0 .. cfg_width c - 1])"
  have e: "endY = startY + int m" using se by (simp add: m_def)
  have lb: "length buffer = 3 * m * W"
  proof -
    have "3 * cfg_width c * (endY - startY) = int (3 * m * W)"
      using w se by (simp add: W_def m_def)
    then have "nat (3 * cfg_width c * (endY - startY)) = 3 * m * W" by (simp only: nat_int)
    then show ?thesis using len by simp
  qed
  have cr: "compute_rows (view_zoom v) (view_centerX v) (view_centerY v) startY endY
           (cfg_width c) (cfg_height c) (cfg_max_iter c) buffer = fold F [startY .. endY - 1] buffer"
    by (simp add: compute_rows_def pixel_color_def Let_def F_def)
  have ys: "[startY .. endY - 1] = map (\<lambda>k. startY + int k) [0..<m]"
    using upto_as_upt [of startY m] by (simp add: e)
  have Frow: "F (startY + int k) b
      = take (3 * k * W) b @ row_bytes c v (startY + int k) @ drop (3 * k * W + 3 * W) b"
    if "3 * k * W + 3 * W \<le> length b" for k b
    using compute_row [OF w, of k b v "startY + int k"] that
    by (simp add: F_def W_def)
  have "fold F (map (\<lambda>k. startY + int k) [0..<m]) buffer
      = concat (map (\<lambda>k. row_bytes c v (startY + int k)) [0..<m]) @ drop (3 * m * W) buffer"
    by (rule fold_rows) (simp_all add: Frow length_row_bytes [OF w] W_def [symmetric] lb)
  then have "fold F [startY .. endY - 1] buffer = chunk_bytes c v startY (int m)"
    by (simp add: ys lb chunk_bytes_upt)
  moreover have "int m = endY - startY" using se by (simp add: m_def)
  ultimately show ?thesis by (simp only: cr)
qed

lemma length_concat_uniform:
  assumes "\<And>i. i < m \<Longrightarrow> length (f i) = L"
  shows "length (concat (map f [0..<m])) = m * L"
  using assms by (induction m) simp_all

lemma nth_concat_uniform:
  assumes "\<And>i. i < m \<Longrightarrow> length (f i) = L" "k < m" "j < L"
  shows "concat (map f [0..<m]) ! (k * L + j) = f k ! j"
  using assms
proof (induction m)
  case 0
  then show ?case by simp
next
  case (Suc m)
  have len: "length (concat (map f [0..<m])) = m * L"
    using Suc.prems(1) by (intro length_concat_uniform) simp
  show ?case
  proof (cases "k < m")
    case True
    then have "Suc k \<le> m" by simp
    then have "Suc k * L \<le> m * L" by (rule mult_le_mono1)
    with Suc.prems(3) have "k * L + j < m * L" by simp
    then show ?thesis using Suc True by (simp add: nth_append len)
  next
    case False
    with Suc.prems(2) have "k = m" by simp
    then show ?thesis by (simp add: nth_append len)
  qed
qed

lemma sdiv_two: "0 \<le> a \<Longrightarrow> a sdiv 2 = a div (2::int)"
  by (cases "a = 0") (simp_all add: signed_divide_int_def)

lemma chunk_bytes_nth:
  fixes c :: config
  assumes w: "0 < cfg_width c" and y: "startY \<le> y" "y < startY + n" and x: "0 \<le> x" "x < cfg_width c"
    and ch: "ch < 3"
  shows "chunk_bytes c v startY n ! (nat (((y - startY) * cfg_width c + x) * 3) + ch)
         = rgb_list (pixel_color c v x y) ! ch"
proof -
  define W where "W = nat (cfg_width c)"
  define m where "m = nat n"
  define k where "k = nat (y - startY)"
  define X where "X = nat x"
  have w0: "0 \<le> cfg_width c" using w by simp
  have n: "n = int m" using y by (simp add: m_def)
  have km: "k < m" using y by (simp add: k_def m_def)
  have XW: "X < W" using x by (simp add: X_def W_def)
  have yk: "y = startY + int k" using y by (simp add: k_def)
  have xX: "x = int X" using x by (simp add: X_def)
  have "((y - startY) * cfg_width c + x) * 3 = int (k * (3 * W) + (X * 3 + ch)) - int ch"
    using w0 by (simp add: yk xX W_def algebra_simps)
  then have idx: "nat (((y - startY) * cfg_width c + x) * 3) + ch = k * (3 * W) + (X * 3 + ch)"
    by linarith
  have j: "X * 3 + ch < 3 * W" using XW ch by simp
  have "chunk_bytes c v startY n ! (k * (3 * W) + (X * 3 + ch))
      = row_bytes c v (startY + int k) ! (X * 3 + ch)"
    unfolding n chunk_bytes_upt
    using km j by (intro nth_concat_uniform) (simp_all add: length_row_bytes [OF w0] W_def)
  also have "\<dots> = rgb_list (pixel_color c v (int X) (startY + int k)) ! ch"
    unfolding row_bytes_upt [OF w0] W_def [symmetric]
    using XW ch by (intro nth_concat_uniform) simp_all
  finally show ?thesis by (simp only: idx yk [symmetric] xX [symmetric])
qed

lemma length_chunk_bytes:
  fixes c :: config
  assumes w: "0 \<le> cfg_width c" and n: "0 \<le> n"
  shows "length (chunk_bytes c v s n) = nat (3 * cfg_width c * n)"
proof -
  define m where "m = nat n"
  have nm: "n = int m" using n by (simp add: m_def)
  have "length (chunk_bytes c v s (int m)) = m * (3 * nat (cfg_width c))"
    unfolding chunk_bytes_upt by (intro length_concat_uniform) (simp add: length_row_bytes [OF w])
  moreover have "3 * cfg_width c * n = int (m * (3 * nat (cfg_width c)))"
    using w by (simp add: nm)
  ultimately show ?thesis by (simp only: nm nat_int)
qed

lemma compute_rows_nth:
  fixes c :: config and v :: view
  assumes "0 < cfg_width c" and "0 < cfg_height c" and "0 < view_zoom v"
    and "startY \<le> y" and "y < endY" and "0 \<le> x" and "x < cfg_width c"
    and "length buffer = nat (3 * cfg_width c * (endY - startY))"
  shows "(let out = compute_rows (view_zoom v) (view_centerX v) (view_centerY v) startY endY
                      (cfg_width c) (cfg_height c) (cfg_max_iter c) buffer;
              off = nat (((y - startY) * cfg_width c + x) * 3);
              scale = 4 / (of_int (cfg_width c) * view_zoom v);
              cx = view_centerX v + of_int (x - cfg_width c div 2) * scale;
              cy = view_centerY v + of_int (y - cfg_height c div 2) * scale
          in length out = length buffer
             \<and> (out ! off, out ! (off + 1), out ! (off + 2))
                 = iteration_to_color (of_int (mandelbrot cx cy (cfg_max_iter c))) (cfg_max_iter c))"
proof -
  have w0: "0 \<le> cfg_width c" and se: "startY \<le> endY" using assms by simp_all
  have out: "compute_rows (view_zoom v) (view_centerX v) (view_centerY v) startY endY
      (cfg_width c) (cfg_height c) (cfg_max_iter c) buffer = chunk_bytes c v startY (endY - startY)"
    using w0 se assms(8) by (rule compute_rows_chunk)
  have len: "length (chunk_bytes c v startY (endY - startY)) = length buffer"
    using w0 se assms(8) by (simp add: length_chunk_bytes)
  have y: "y < startY + (endY - startY)" using assms(5) by simp
  note nth = chunk_bytes_nth [OF assms(1,4) y assms(6,7), of _ v]
  obtain r g b where p: "pixel_color c v x y = (r, g, b)" by (cases "pixel_color c v x y")
  have n0: "chunk_bytes c v startY (endY - startY) ! nat (((y - startY) * cfg_width c + x) * 3) = r"
    using nth [of 0] by (simp add: p rgb_list_def)
  have n1: "chunk_bytes c v startY (endY - startY) ! (nat (((y - startY) * cfg_width c + x) * 3) + 1) = g"
    using nth [of 1] by (simp add: p rgb_list_def)
  have n2: "chunk_bytes c v startY (endY - startY) ! (nat (((y - startY) * cfg_width c + x) * 3) + 2) = b"
    using nth [of 2] by (simp add: p rgb_list_def)
  have pc: "pixel_color c v x y
      = iteration_to_color (of_int (mandelbrot
          (view_centerX v + of_int (x - cfg_width c div 2) * (4 / (of_int (cfg_width c) * view_zoom v)))
          (view_centerY v + of_int (y - cfg_height c div 2) * (4 / (of_int (cfg_width c) * view_zoom v)))
          (cfg_max_iter c))) (cfg_max_iter c)"
    using assms(1,2) by (simp add: pixel_color_def Let_def map_pixel_to_complex_def sdiv_two)
  show ?thesis
    unfolding Let_def out using len n0 n1 n2 p pc by simp
qed

text \<open>
  Claim C7, as the specification states it, fails for an odd width. With \<open>width = 3\<close>,
  \<open>height = 2\<close>, \<open>maxIter = 3\<close>, \<open>zoom = 1/3\<close> and center \<open>(2, 0)\<close>, the renderer called for the
  chunk \<open>[1, 2)\<close> does not give pixel \<open>(1, 1)\<close>, at byte offset 3, the color of
  \<open>cx = centerX + (x - width / 2) scale\<close>, \<open>cy = centerY + (y - height / 2) scale\<close> with
  \<open>width / 2 = 3 / 2\<close>: that point is \<open>(0, 0)\<close> and black, the pixel is not.
\<close>

theorem pixel_centre_counterexample:
  "(compute_rows (1 / 3) 2 0 1 2 3 2 3 (replicate 9 0) ! 3,
    compute_rows (1 / 3) 2 0 1 2 3 2 3 (replicate 9 0) ! 4,
    compute_rows (1 / 3) 2 0 1 2 3 2 3 (replicate 9 0) ! 5)
   \<noteq> iteration_to_color
        (of_int (mandelbrot (2 + (1 - 3 / 2) * (4 / (3 * (1 / 3))))
                            (0 + (1 - 2 / 2) * (4 / (3 * (1 / 3)))) 3)) 3"
proof -
  let ?c = "\<lparr>cfg_width = 3, cfg_height = 2, cfg_max_iter = 3\<rparr>"
  let ?v = "\<lparr>view_zoom = 1 / 3, view_centerX = 2, view_centerY = 0\<rparr>"
  have "(compute_rows (1 / 3) 2 0 1 2 3 2 3 (replicate 9 0) ! 3,
    compute_rows (1 / 3) 2 0 1 2 3 2 3 (replicate 9 0) ! 4,
    compute_rows (1 / 3) 2 0 1 2 3 2 3 (replicate 9 0) ! 5)
    = iteration_to_color (of_int (mandelbrot 2 0 3)) 3"
    using compute_rows_nth [of ?c ?v 1 1 2 1 "replicate 9 0"] by (simp add: Let_def)
  moreover have "iteration_to_color (of_int (mandelbrot 2 0 3)) 3 \<noteq> (0, 0, 0)"
    by (rule iteration_to_color_not_black) (simp add: mandelbrot_2_0)
  moreover have "iteration_to_color
        (of_int (mandelbrot (2 + (1 - 3 / 2) * (4 / (3 * (1 / 3))))
                            (0 + (1 - 2 / 2) * (4 / (3 * (1 / 3)))) 3)) 3 = (0, 0, 0)"
    by (simp add: mandelbrot_origin iteration_to_color_black)
  ultimately show ?thesis by simp
qed


text \<open>
  Claim C7, amended. For positive width and height and \<open>zoom > 0\<close>, for every pixel \<open>(x, y)\<close>
  of a chunk \<open>[startY, endY)\<close> and a buffer of \<open>3 * width * (endY - startY)\<close> bytes, the renderer
  keeps the length of the buffer and writes at byte offset \<open>((y - startY) * width + x) * 3\<close> the
  color of \<open>cx = centerX + (x - width div 2) * scale\<close>, \<open>cy = centerY + (y - height div 2) * scale\<close>
  with \<open>scale = 4 / (width * zoom)\<close>, where \<open>div\<close> is the integer quotient.
\<close>

theorem compute_rows_pixel:
  fixes c :: config and v :: view
  assumes "0 < cfg_width c" and "0 < cfg_height c" and "0 < view_zoom v"
    and "startY \<le> y" and "y < endY" and "0 \<le> x" and "x < cfg_width c"
    and "length buffer = nat (3 * cfg_width c * (endY - startY))"
  shows "(let out = compute_rows (view_zoom v) (view_centerX v) (view_centerY v) startY endY
                      (cfg_width c) (cfg_height c) (cfg_max_iter c) buffer;
              off = nat (((y - startY) * cfg_width c + x) * 3);
              scale = 4 / (of_int (cfg_width c) * view_zoom v);
              cx = view_centerX v + of_int (x - cfg_width c div 2) * scale;
              cy = view_centerY v + of_int (y - cfg_height c div 2) * scale
          in length out = length buffer
             \<and> (out ! off, out ! (off + 1), out ! (off + 2))
                 = iteration_to_color (of_int (mandelbrot cx cy (cfg_max_iter c))) (cfg_max_iter c))"
  using assms by (rule compute_rows_nth)

theorem compute_rows_pixel_witness:
  "length (compute_rows (1 / 3) 2 0 1 2 3 2 3 (replicate 9 0)) = 9
   \<and> (compute_rows (1 / 3) 2 0 1 2 3 2 3 (replicate 9 0) ! 3,
      compute_rows (1 / 3) 2 0 1 2 3 2 3 (replicate 9 0) ! 4,
      compute_rows (1 / 3) 2 0 1 2 3 2 3 (replicate 9 0) ! 5)
     = iteration_to_color (of_int (mandelbrot 2 0 3)) 3"
  using compute_rows_pixel [of "\<lparr>cfg_width = 3, cfg_height = 2, cfg_max_iter = 3\<rparr>"
      "\<lparr>view_zoom = 1 / 3, view_centerX = 2, view_centerY = 0\<rparr>" 1 1 2 1 "replicate 9 0"]
  by (simp add: Let_def)


section \<open>Properties of the frame protocol\<close>

subsection \<open>The moves of the protocol\<close>

lemma master_step_cases [consumes 1, case_names assign drain store finish]:
  assumes "master_step c i s = Next s'"
  obtains
    (assign) w rest where
      "0 < activeWorkers s" "i < length (workers s)" "w = workers s ! i" "outbox w = REQ # rest"
      "nextRow s < cfg_height c"
      "s' = s\<lparr>nextRow := min (nextRow s + CHUNK_SIZE) (cfg_height c),
                workers := (workers s)[i := w\<lparr>outbox := rest,
                  inbox := inbox w @ [ASSIGN (nextRow s)
                    (min (nextRow s + CHUNK_SIZE) (cfg_height c) - nextRow s)]\<rparr>],
                sent_assign := sent_assign s @
                  [(i, nextRow s, min (nextRow s + CHUNK_SIZE) (cfg_height c) - nextRow s)]\<rparr>"
  | (drain) w rest where
      "0 < activeWorkers s" "i < length (workers s)" "w = workers s ! i" "outbox w = REQ # rest"
      "cfg_height c \<le> nextRow s"
      "s' = s\<lparr>workers := (workers s)[i := w\<lparr>outbox := rest, inbox := inbox w @ [TERMINATOR]\<rparr>]\<rparr>"
  | (store) w a k p rest fb where
      "0 < activeWorkers s" "i < length (workers s)" "w = workers s ! i"
      "outbox w = RESULT a k p # rest" "store_chunk c (fullBuffer s) a k p = Some fb"
      "s' = s\<lparr>fullBuffer := fb, workers := (workers s)[i := w\<lparr>outbox := rest\<rparr>],
                got_result := got_result s @ [(i, a, k)]\<rparr>"
  | (finish) w rest where
      "0 < activeWorkers s" "i < length (workers s)" "w = workers s ! i" "outbox w = DONE # rest"
      "s' = s\<lparr>activeWorkers := activeWorkers s - 1,
                workers := (workers s)[i := w\<lparr>outbox := rest\<rparr>]\<rparr>"
proof -
  from assms have a: "0 < activeWorkers s" and i: "i < length (workers s)"
    by (auto simp: master_step_def split: if_splits)
  define w where "w = workers s ! i"
  show thesis
  proof (cases "outbox w")
    case Nil
    with assms a i show thesis by (auto simp: master_step_def w_def Let_def)
  next
    case (Cons m rest)
    show thesis
    proof (cases m)
      case REQ
      show thesis
      proof (cases "cfg_height c \<le> nextRow s")
        case True
        with assms a i Cons REQ have "s' = s\<lparr>workers := (workers s)[i := w\<lparr>outbox := rest, inbox := inbox w @ [TERMINATOR]\<rparr>]\<rparr>"
          by (auto simp: master_step_def w_def assign_chunk_def Let_def)
        with a i Cons REQ True show thesis using drain w_def by blast
      next
        case False
        with assms a i Cons REQ have "s' = s\<lparr>nextRow := min (nextRow s + CHUNK_SIZE) (cfg_height c),
                workers := (workers s)[i := w\<lparr>outbox := rest,
                  inbox := inbox w @ [ASSIGN (nextRow s)
                    (min (nextRow s + CHUNK_SIZE) (cfg_height c) - nextRow s)]\<rparr>],
                sent_assign := sent_assign s @
                  [(i, nextRow s, min (nextRow s + CHUNK_SIZE) (cfg_height c) - nextRow s)]\<rparr>"
          by (auto simp: master_step_def w_def assign_chunk_def Let_def min_def)
        with a i Cons REQ False show thesis using assign w_def by (simp add: not_le)
      qed
    next
      case (RESULT a k p)
      with assms a i Cons obtain fb where fb: "store_chunk c (fullBuffer s) a k p = Some fb"
        and "s' = s\<lparr>fullBuffer := fb, workers := (workers s)[i := w\<lparr>outbox := rest\<rparr>],
                got_result := got_result s @ [(i, a, k)]\<rparr>"
        by (auto simp: master_step_def w_def Let_def split: option.splits)
      with a i Cons RESULT show thesis using store w_def by blast
    next
      case DONE
      with assms a i Cons have "s' = s\<lparr>activeWorkers := activeWorkers s - 1,
                workers := (workers s)[i := w\<lparr>outbox := rest\<rparr>]\<rparr>"
        by (auto simp: master_step_def w_def Let_def)
      with a i Cons DONE show thesis using finish w_def by blast
    qed
  qed
qed

lemma worker_step_cases [consumes 1, case_names request compute leave]:
  assumes "worker_step c v i buf s = Next s'"
  obtains
    (request) w where
      "i < length (workers s)" "w = workers s ! i" "pc w = W_Request"
      "s' = s\<lparr>workers := (workers s)[i := w\<lparr>pc := W_Await, outbox := outbox w @ [REQ]\<rparr>]\<rparr>"
  | (compute) w a k rest where
      "i < length (workers s)" "w = workers s ! i" "pc w = W_Await" "inbox w = ASSIGN a k # rest"
      "length buf = nat (3 * cfg_width c * k)"
      "s' = s\<lparr>workers := (workers s)[i := w\<lparr>pc := W_Request,
          outbox := outbox w @ [RESULT a k
            (compute_rows (view_zoom v) (view_centerX v) (view_centerY v) a (a + k)
               (cfg_width c) (cfg_height c) (cfg_max_iter c) buf)],
          inbox := rest\<rparr>]\<rparr>"
  | (leave) w rest where
      "i < length (workers s)" "w = workers s ! i" "pc w = W_Await" "inbox w = TERMINATOR # rest"
      "s' = s\<lparr>workers := (workers s)[i := w\<lparr>pc := W_Left, outbox := outbox w @ [DONE],
          inbox := rest\<rparr>]\<rparr>"
proof -
  from assms have i: "i < length (workers s)"
    by (auto simp: worker_step_def split: if_splits)
  define w where "w = workers s ! i"
  show thesis
  proof (cases "pc w")
    case W_Request
    with assms i have "s' = s\<lparr>workers := (workers s)[i := w\<lparr>pc := W_Await, outbox := outbox w @ [REQ]\<rparr>]\<rparr>"
      by (auto simp: worker_step_def w_def Let_def)
    with i W_Request show thesis using request w_def by blast
  next
    case W_Await
    show thesis
    proof (cases "inbox w")
      case Nil
      with assms i W_Await show thesis by (auto simp: worker_step_def w_def Let_def)
    next
      case (Cons m rest)
      show thesis
      proof (cases m)
        case (ASSIGN a k)
        with assms i W_Await Cons have l: "length buf = nat (3 * cfg_width c * k)"
          by (auto simp: worker_step_def w_def Let_def split: if_splits)
        with assms i W_Await Cons ASSIGN have "s' = s\<lparr>workers := (workers s)[i := w\<lparr>pc := W_Request,
          outbox := outbox w @ [RESULT a k
            (compute_rows (view_zoom v) (view_centerX v) (view_centerY v) a (a + k)
               (cfg_width c) (cfg_height c) (cfg_max_iter c) buf)],
          inbox := rest\<rparr>]\<rparr>"
          by (auto simp: worker_step_def w_def Let_def)
        with i W_Await Cons ASSIGN l show thesis using compute w_def by blast
      next
        case TERMINATOR
        with assms i W_Await Cons have "s' = s\<lparr>workers := (workers s)[i := w\<lparr>pc := W_Left, outbox := outbox w @ [DONE],
          inbox := rest\<rparr>]\<rparr>"
          by (auto simp: worker_step_def w_def Let_def)
        with i W_Await Cons TERMINATOR show thesis using leave w_def by blast
      qed
    qed
  next
    case W_Left
    with assms i show thesis by (auto simp: worker_step_def w_def Let_def)
  qed
qed

lemma step_cases [consumes 1, case_names assign drain store finish request compute leave]:
  assumes "step c v mv s = Next s'"
  obtains
    (assign) i w rest where
      "mv = Master i"
      "0 < activeWorkers s" "i < length (workers s)" "w = workers s ! i" "outbox w = REQ # rest"
      "nextRow s < cfg_height c"
      "s' = s\<lparr>nextRow := min (nextRow s + CHUNK_SIZE) (cfg_height c),
                workers := (workers s)[i := w\<lparr>outbox := rest,
                  inbox := inbox w @ [ASSIGN (nextRow s)
                    (min (nextRow s + CHUNK_SIZE) (cfg_height c) - nextRow s)]\<rparr>],
                sent_assign := sent_assign s @
                  [(i, nextRow s, min (nextRow s + CHUNK_SIZE) (cfg_height c) - nextRow s)]\<rparr>"
  | (drain) i w rest where
      "mv = Master i"
      "0 < activeWorkers s" "i < length (workers s)" "w = workers s ! i" "outbox w = REQ # rest"
      "cfg_height c \<le> nextRow s"
      "s' = s\<lparr>workers := (workers s)[i := w\<lparr>outbox := rest, inbox := inbox w @ [TERMINATOR]\<rparr>]\<rparr>"
  | (store) i w a k p rest fb where
      "mv = Master i"
      "0 < activeWorkers s" "i < length (workers s)" "w = workers s ! i"
      "outbox w = RESULT a k p # rest" "store_chunk c (fullBuffer s) a k p = Some fb"
      "s' = s\<lparr>fullBuffer := fb, workers := (workers s)[i := w\<lparr>outbox := rest\<rparr>],
                got_result := got_result s @ [(i, a, k)]\<rparr>"
  | (finish) i w rest where
      "mv = Master i"
      "0 < activeWorkers s" "i < length (workers s)" "w = workers s ! i" "outbox w = DONE # rest"
      "s' = s\<lparr>activeWorkers := activeWorkers s - 1,
                workers := (workers s)[i := w\<lparr>outbox := rest\<rparr>]\<rparr>"
  | (request) i buf w where
      "mv = Worker i buf"
      "i < length (workers s)" "w = workers s ! i" "pc w = W_Request"
      "s' = s\<lparr>workers := (workers s)[i := w\<lparr>pc := W_Await, outbox := outbox w @ [REQ]\<rparr>]\<rparr>"
  | (compute) i buf w a k rest where
      "mv = Worker i buf"
      "i < length (workers s)" "w = workers s ! i" "pc w = W_Await" "inbox w = ASSIGN a k # rest"
      "length buf = nat (3 * cfg_width c * k)"
      "s' = s\<lparr>workers := (workers s)[i := w\<lparr>pc := W_Request,
          outbox := outbox w @ [RESULT a k
            (compute_rows (view_zoom v) (view_centerX v) (view_centerY v) a (a + k)
               (cfg_width c) (cfg_height c) (cfg_max_iter c) buf)],
          inbox := rest\<rparr>]\<rparr>"
  | (leave) i buf w rest where
      "mv = Worker i buf"
      "i < length (workers s)" "w = workers s ! i" "pc w = W_Await" "inbox w = TERMINATOR # rest"
      "s' = s\<lparr>workers := (workers s)[i := w\<lparr>pc := W_Left, outbox := outbox w @ [DONE],
          inbox := rest\<rparr>]\<rparr>"
proof (cases mv)
  case (Master i)
  with assms have "master_step c i s = Next s'" by (simp add: step_def)
  then show thesis
  proof (cases rule: master_step_cases)
    case (assign w rest)
    with Master show thesis by (intro that(1)) 
  next
    case (drain w rest)
    with Master show thesis by (intro that(2))
  next
    case (store w a k p rest fb)
    with Master show thesis by (intro that(3))
  next
    case (finish w rest)
    with Master show thesis by (intro that(4))
  qed
next
  case (Worker i buf)
  with assms have "worker_step c v i buf s = Next s'" by (simp add: step_def)
  then show thesis
  proof (cases rule: worker_step_cases)
    case (request w)
    with Worker show thesis by (intro that(5))
  next
    case (compute w a k rest)
    with Worker show thesis by (intro that(6))
  next
    case (leave w rest)
    with Worker show thesis by (intro that(7))
  qed
qed

lemma CHUNK_SIZE_pos: "0 < CHUNK_SIZE"
  by (simp add: CHUNK_SIZE_def)

lemma store_chunk_SomeD:
  assumes "store_chunk c fb a k p = Some fb'"
  shows "0 \<le> 3 * cfg_width c * a" "nat (3 * cfg_width c * a) + length p \<le> length fb"
    "fb' = take (nat (3 * cfg_width c * a)) fb @ p @ drop (nat (3 * cfg_width c * a) + length p) fb"
proof -
  from assms have c: "0 \<le> 3 * cfg_width c * a" "0 \<le> 3 * cfg_width c * k"
      "3 * cfg_width c * a + 3 * cfg_width c * k \<le> int (length fb)"
      "int (length p) \<le> 3 * cfg_width c * k"
    and fb': "fb' = take (nat (3 * cfg_width c * a)) fb @ p
        @ drop (nat (3 * cfg_width c * a) + length p) fb"
    by (simp_all add: store_chunk_def Let_def split: if_splits)
  show "0 \<le> 3 * cfg_width c * a" by (rule c(1))
  show "nat (3 * cfg_width c * a) + length p \<le> length fb" using c by linarith
  show "fb' = take (nat (3 * cfg_width c * a)) fb @ p @ drop (nat (3 * cfg_width c * a) + length p) fb"
    by (rule fb')
qed

lemma store_chunk_length:
  "store_chunk c fb a k p = Some fb' \<Longrightarrow> length fb' = length fb"
  using store_chunk_SomeD(2,3) [of c fb a k p fb'] by simp

lemma inv_rows_step:
  assumes "inv_rows c s" "step c v mv s = Next s'"
  shows "inv_rows c s'"
  using assms(2)
proof (cases rule: step_cases)
  case (assign i w rest)
  with assms(1) CHUNK_SIZE_pos show ?thesis by (simp add: inv_rows_def)
next
  case (store i w a k p rest fb)
  with assms(1) store_chunk_length [OF store(6)] show ?thesis by (simp add: inv_rows_def)
qed (use assms(1) in \<open>simp_all add: inv_rows_def\<close>)

lemma in_set_updateD: "x \<in> set (xs[i := y]) \<Longrightarrow> x = y \<or> x \<in> set xs"
  using set_update_subset_insert [of xs i y] by auto

lemma sum_list_map_update:
  fixes f :: "'a \<Rightarrow> 'b::comm_monoid_add"
  shows "i < length xs \<Longrightarrow> sum_list (map f (xs[i := y])) + f (xs ! i) = sum_list (map f xs) + f y"
proof (induction xs arbitrary: i)
  case Nil
  then show ?case by simp
next
  case (Cons x xs)
  show ?case
  proof (cases i)
    case 0
    then show ?thesis by (simp add: ac_simps)
  next
    case (Suc j)
    with Cons.prems have "j < length xs" by simp
    from Cons.IH [OF this] show ?thesis by (simp add: Suc ac_simps)
  qed
qed

lemma only_results_append:
  "only_results (xs @ ys) \<longleftrightarrow> only_results xs \<and> only_results ys"
  by (induction xs rule: only_results.induct) simp_all

lemma only_results_butlast: "only_results xs \<Longrightarrow> only_results (butlast xs)"
  by (induction xs rule: only_results.induct) simp_all

lemma only_results_last: "only_results xs \<Longrightarrow> xs \<noteq> [] \<Longrightarrow> last xs \<noteq> REQ \<and> last xs \<noteq> DONE"
  by (induction xs rule: only_results.induct) auto

text \<open>The head of a worker's queue tells where the worker is.\<close>

lemma worker_ok_REQ:
  assumes "worker_ok w" "outbox w = REQ # rest"
  shows "pc w = W_Await \<and> rest = [] \<and> inbox w = []"
  using assms by (cases "pc w"; cases "rest = []") (auto simp: worker_ok_def)

lemma worker_ok_DONE:
  assumes "worker_ok w" "outbox w = DONE # rest"
  shows "pc w = W_Left \<and> rest = [] \<and> inbox w = []"
  using assms by (cases "pc w"; cases "rest = []") (auto simp: worker_ok_def)

lemma worker_ok_RESULT:
  assumes "worker_ok w" "outbox w = RESULT a k p # rest"
  shows "worker_ok (w\<lparr>outbox := rest\<rparr>) \<and> active (w\<lparr>outbox := rest\<rparr>) = active w"
  using assms by (cases "pc w"; cases "rest = []") (auto simp: worker_ok_def active_def)

lemma worker_ok_ASSIGN:
  assumes "worker_ok w" "pc w = W_Await" "inbox w = m # rest"
  shows "rest = [] \<and> only_results (outbox w)"
  using assms by (auto simp: worker_ok_def)

subsection \<open>Each invariant is kept by every move\<close>

lemma inv_workers_update:
  assumes "inv_workers s" "i < length (workers s)" "worker_ok w'"
    and "workers s' = (workers s)[i := w']"
    and "activeWorkers s' = activeWorkers s + active w' - active (workers s ! i)"
  shows "inv_workers s'"
proof -
  have "\<forall>w \<in> set (workers s'). worker_ok w"
    using assms(1,3,4) by (auto simp: inv_workers_def dest: in_set_updateD)
  moreover have "sum_list (map active (workers s')) + active (workers s ! i)
      = sum_list (map active (workers s)) + active w'"
    unfolding assms(4) using assms(2) by (rule sum_list_map_update)
  then have "activeWorkers s' = sum_list (map active (workers s'))"
    using assms(1,5) by (simp add: inv_workers_def)
  ultimately show ?thesis by (simp add: inv_workers_def)
qed

lemma inv_workers_nth: "inv_workers s \<Longrightarrow> i < length (workers s) \<Longrightarrow> worker_ok (workers s ! i)"
  by (simp add: inv_workers_def)

lemma inv_workers_step:
  assumes "inv_workers s" "step c v mv s = Next s'"
  shows "inv_workers s'"
  using assms(2)
proof (cases rule: step_cases)
  case (assign i w rest)
  from inv_workers_nth [OF assms(1) assign(3)] assign(4,5)
  have w: "pc w = W_Await \<and> rest = [] \<and> inbox w = []" by (intro worker_ok_REQ) simp_all
  show ?thesis
    using assms(1) assign(3)
  proof (rule inv_workers_update)
    show "worker_ok (w\<lparr>outbox := rest, inbox := inbox w @ [ASSIGN (nextRow s)
                    (min (nextRow s + CHUNK_SIZE) (cfg_height c) - nextRow s)]\<rparr>)"
      using w by (simp add: worker_ok_def)
  qed (use w assign in \<open>simp_all add: active_def\<close>)
next
  case (drain i w rest)
  from inv_workers_nth [OF assms(1) drain(3)] drain(4,5)
  have w: "pc w = W_Await \<and> rest = [] \<and> inbox w = []" by (intro worker_ok_REQ) simp_all
  show ?thesis
    using assms(1) drain(3)
  proof (rule inv_workers_update)
    show "worker_ok (w\<lparr>outbox := rest, inbox := inbox w @ [TERMINATOR]\<rparr>)"
      using w by (simp add: worker_ok_def)
  qed (use w drain in \<open>simp_all add: active_def\<close>)
next
  case (store i w a k p rest fb)
  from inv_workers_nth [OF assms(1) store(3)] store(4,5)
  have w: "worker_ok (w\<lparr>outbox := rest\<rparr>) \<and> active (w\<lparr>outbox := rest\<rparr>) = active w"
    by (intro worker_ok_RESULT) simp_all
  show ?thesis
    using assms(1) store(3)
  proof (rule inv_workers_update)
    show "worker_ok (w\<lparr>outbox := rest\<rparr>)" using w by simp
  qed (use w store in \<open>simp_all\<close>)
next
  case (finish i w rest)
  from inv_workers_nth [OF assms(1) finish(3)] finish(4,5)
  have w: "pc w = W_Left \<and> rest = [] \<and> inbox w = []" by (intro worker_ok_DONE) simp_all
  show ?thesis
    using assms(1) finish(3)
  proof (rule inv_workers_update)
    show "worker_ok (w\<lparr>outbox := rest\<rparr>)" using w by (simp add: worker_ok_def)
  qed (use w finish in \<open>simp_all add: active_def\<close>)
next
  case (request i buf w)
  from inv_workers_nth [OF assms(1) request(2)] request(3,4)
  have w: "inbox w = [] \<and> only_results (outbox w)" by (simp add: worker_ok_def)
  show ?thesis
    using assms(1) request(2)
  proof (rule inv_workers_update)
    show "worker_ok (w\<lparr>pc := W_Await, outbox := outbox w @ [REQ]\<rparr>)"
      using w by (simp add: worker_ok_def)
  qed (use w request in \<open>simp_all add: active_def\<close>)
next
  case (compute i buf w a k rest)
  from inv_workers_nth [OF assms(1) compute(2)] compute(3,4,5)
  have w: "rest = [] \<and> only_results (outbox w)" by (intro worker_ok_ASSIGN) simp_all
  show ?thesis
    using assms(1) compute(2)
  proof (rule inv_workers_update)
    show "worker_ok (w\<lparr>pc := W_Request,
          outbox := outbox w @ [RESULT a k
            (compute_rows (view_zoom v) (view_centerX v) (view_centerY v) a (a + k)
               (cfg_width c) (cfg_height c) (cfg_max_iter c) buf)],
          inbox := rest\<rparr>)"
      using w by (simp add: worker_ok_def only_results_append)
  qed (use w compute in \<open>simp_all add: active_def\<close>)
next
  case (leave i buf w rest)
  from inv_workers_nth [OF assms(1) leave(2)] leave(3,4,5)
  have w: "rest = [] \<and> only_results (outbox w)" by (intro worker_ok_ASSIGN) simp_all
  show ?thesis
    using assms(1) leave(2)
  proof (rule inv_workers_update)
    show "worker_ok (w\<lparr>pc := W_Left, outbox := outbox w @ [DONE], inbox := rest\<rparr>)"
      using w by (simp add: worker_ok_def)
  qed (use w leave in \<open>simp_all add: active_def\<close>)
qed

lemma inv_drain_update:
  assumes "inv_drain c s" and "workers s' = (workers s)[i := w']" and "nextRow s \<le> nextRow s'"
    and "TERMINATOR \<in> set (inbox w') \<or> pc w' = W_Left \<longrightarrow> cfg_height c \<le> nextRow s'"
  shows "inv_drain c s'"
  unfolding inv_drain_def
proof (intro ballI impI)
  fix w assume w: "w \<in> set (workers s')" and t: "TERMINATOR \<in> set (inbox w) \<or> pc w = W_Left"
  from w assms(2) have "w = w' \<or> w \<in> set (workers s)" by (auto dest: in_set_updateD)
  then show "cfg_height c \<le> nextRow s'"
  proof
    assume "w = w'"
    with t assms(4) show ?thesis by simp
  next
    assume "w \<in> set (workers s)"
    with t assms(1) have "cfg_height c \<le> nextRow s" by (auto simp: inv_drain_def)
    with assms(3) show ?thesis by simp
  qed
qed

lemma inv_drain_nth:
  "inv_drain c s \<Longrightarrow> i < length (workers s) \<Longrightarrow>
     TERMINATOR \<in> set (inbox (workers s ! i)) \<or> pc (workers s ! i) = W_Left \<Longrightarrow>
     cfg_height c \<le> nextRow s"
  by (auto simp: inv_drain_def)

lemma inv_drain_step:
  assumes "inv_drain c s" "step c v mv s = Next s'"
  shows "inv_drain c s'"
  using assms(2)
proof (cases rule: step_cases)
  case (assign i w rest)
  note d = inv_drain_nth [OF assms(1) assign(3)]
  show ?thesis
    using assms(1)
  proof (rule inv_drain_update)
    show "workers s' = (workers s)[i := w\<lparr>outbox := rest,
                  inbox := inbox w @ [ASSIGN (nextRow s)
                    (min (nextRow s + CHUNK_SIZE) (cfg_height c) - nextRow s)]\<rparr>]"
      using assign by simp
    show "nextRow s \<le> nextRow s'" using assign CHUNK_SIZE_pos by simp
    show "TERMINATOR \<in> set (inbox (w\<lparr>outbox := rest,
                  inbox := inbox w @ [ASSIGN (nextRow s)
                    (min (nextRow s + CHUNK_SIZE) (cfg_height c) - nextRow s)]\<rparr>))
        \<or> pc (w\<lparr>outbox := rest,
                  inbox := inbox w @ [ASSIGN (nextRow s)
                    (min (nextRow s + CHUNK_SIZE) (cfg_height c) - nextRow s)]\<rparr>) = W_Left
        \<longrightarrow> cfg_height c \<le> nextRow s'"
      using d assign(4,6) by auto
  qed
next
  case (drain i w rest)
  show ?thesis
    using assms(1)
  proof (rule inv_drain_update)
    show "workers s' = (workers s)[i := w\<lparr>outbox := rest, inbox := inbox w @ [TERMINATOR]\<rparr>]"
      using drain by simp
  qed (use drain in simp_all)
next
  case (store i w a k p rest fb)
  note d = inv_drain_nth [OF assms(1) store(3)]
  show ?thesis
    using assms(1)
  proof (rule inv_drain_update)
    show "workers s' = (workers s)[i := w\<lparr>outbox := rest\<rparr>]" using store by simp
  qed (use store d in auto)
next
  case (finish i w rest)
  note d = inv_drain_nth [OF assms(1) finish(3)]
  show ?thesis
    using assms(1)
  proof (rule inv_drain_update)
    show "workers s' = (workers s)[i := w\<lparr>outbox := rest\<rparr>]" using finish by simp
  qed (use finish d in auto)
next
  case (request i buf w)
  note d = inv_drain_nth [OF assms(1) request(2)]
  show ?thesis
    using assms(1)
  proof (rule inv_drain_update)
    show "workers s' = (workers s)[i := w\<lparr>pc := W_Await, outbox := outbox w @ [REQ]\<rparr>]"
      using request by simp
  qed (use request d in auto)
next
  case (compute i buf w a k rest)
  note d = inv_drain_nth [OF assms(1) compute(2)]
  show ?thesis
    using assms(1)
  proof (rule inv_drain_update)
    show "workers s' = (workers s)[i := w\<lparr>pc := W_Request,
          outbox := outbox w @ [RESULT a k
            (compute_rows (view_zoom v) (view_centerX v) (view_centerY v) a (a + k)
               (cfg_width c) (cfg_height c) (cfg_max_iter c) buf)],
          inbox := rest\<rparr>]"
      using compute by simp
  qed (use compute d in auto)
next
  case (leave i buf w rest)
  note d = inv_drain_nth [OF assms(1) leave(2)]
  show ?thesis
    using assms(1)
  proof (rule inv_drain_update)
    show "workers s' = (workers s)[i := w\<lparr>pc := W_Left, outbox := outbox w @ [DONE],
          inbox := rest\<rparr>]"
      using leave by simp
  qed (use leave d in auto)
qed

lemma chunks_of_snoc:
  "chunks_of j (es @ [(i, a, k)]) = (if j = i then chunks_of j es @ [(a, k)] else chunks_of j es)"
  by (auto simp: chunks_of_def)

lemma in_chunks_of: "(a, k) \<in> set (chunks_of i es) \<longleftrightarrow> (i, a, k) \<in> set es"
  by (force simp: chunks_of_def)

lemma result_hdrs_append: "result_hdrs (xs @ ys) = result_hdrs xs @ result_hdrs ys"
  by (induction xs rule: result_hdrs.induct) simp_all

lemma assign_hdrs_append: "assign_hdrs (xs @ ys) = assign_hdrs xs @ assign_hdrs ys"
  by (induction xs rule: assign_hdrs.induct) simp_all

lemma inv_fifo_update:
  assumes "inv_fifo s" and "i < length (workers s)" and "workers s' = (workers s)[i := w']"
    and "chunks_of i (sent_assign s')
          = chunks_of i (got_result s') @ result_hdrs (outbox w') @ assign_hdrs (inbox w')"
    and "\<And>j. j \<noteq> i \<Longrightarrow> chunks_of j (sent_assign s') = chunks_of j (sent_assign s)
                          \<and> chunks_of j (got_result s') = chunks_of j (got_result s)"
    and "\<forall>e \<in> set (got_result s'). fst e < length (workers s)"
  shows "inv_fifo s'"
  unfolding inv_fifo_def
proof (intro conjI allI impI)
  fix j assume "j < length (workers s')"
  then have j: "j < length (workers s)" by (simp add: assms(3))
  show "chunks_of j (sent_assign s')
          = chunks_of j (got_result s') @ result_hdrs (outbox (workers s' ! j))
              @ assign_hdrs (inbox (workers s' ! j))"
  proof (cases "j = i")
    case True
    then show ?thesis using assms(2,4) by (simp add: assms(3))
  next
    case False
    with assms(1) j assms(5) [OF False] show ?thesis
      by (simp add: assms(3) inv_fifo_def)
  qed
next
  show "\<forall>e \<in> set (got_result s'). fst e < length (workers s')"
    using assms(6) by (simp add: assms(3))
qed

lemma inv_fifo_nth:
  "inv_fifo s \<Longrightarrow> i < length (workers s) \<Longrightarrow>
     chunks_of i (sent_assign s)
        = chunks_of i (got_result s) @ result_hdrs (outbox (workers s ! i))
            @ assign_hdrs (inbox (workers s ! i))"
  by (simp add: inv_fifo_def)

lemma inv_fifo_got: "inv_fifo s \<Longrightarrow> \<forall>e \<in> set (got_result s). fst e < length (workers s)"
  by (simp add: inv_fifo_def)

lemma inv_fifo_step:
  assumes "inv_fifo s" "step c v mv s = Next s'"
  shows "inv_fifo s'"
  using assms(2)
proof (cases rule: step_cases)
  case (assign i w rest)
  note f = inv_fifo_nth [OF assms(1) assign(3)] and g = inv_fifo_got [OF assms(1)]
  show ?thesis
    using assms(1) assign(3)
  proof (rule inv_fifo_update)
    show "workers s' = (workers s)[i := w\<lparr>outbox := rest,
                  inbox := inbox w @ [ASSIGN (nextRow s)
                    (min (nextRow s + CHUNK_SIZE) (cfg_height c) - nextRow s)]\<rparr>]"
      using assign by simp
  qed (use assign f g in \<open>simp_all add: chunks_of_snoc assign_hdrs_append\<close>)
next
  case (drain i w rest)
  note f = inv_fifo_nth [OF assms(1) drain(3)] and g = inv_fifo_got [OF assms(1)]
  show ?thesis
    using assms(1) drain(3)
  proof (rule inv_fifo_update)
    show "workers s' = (workers s)[i := w\<lparr>outbox := rest, inbox := inbox w @ [TERMINATOR]\<rparr>]"
      using drain by simp
  qed (use drain f g in \<open>simp_all add: chunks_of_snoc assign_hdrs_append\<close>)
next
  case (store i w a k p rest fb)
  note f = inv_fifo_nth [OF assms(1) store(3)] and g = inv_fifo_got [OF assms(1)]
  show ?thesis
    using assms(1) store(3)
  proof (rule inv_fifo_update)
    show "workers s' = (workers s)[i := w\<lparr>outbox := rest\<rparr>]" using store by simp
  qed (use store f g in \<open>simp_all add: chunks_of_snoc\<close>)
next
  case (finish i w rest)
  note f = inv_fifo_nth [OF assms(1) finish(3)] and g = inv_fifo_got [OF assms(1)]
  show ?thesis
    using assms(1) finish(3)
  proof (rule inv_fifo_update)
    show "workers s' = (workers s)[i := w\<lparr>outbox := rest\<rparr>]" using finish by simp
  qed (use finish f g in \<open>simp_all\<close>)
next
  case (request i buf w)
  note f = inv_fifo_nth [OF assms(1) request(2)] and g = inv_fifo_got [OF assms(1)]
  show ?thesis
    using assms(1) request(2)
  proof (rule inv_fifo_update)
    show "workers s' = (workers s)[i := w\<lparr>pc := W_Await, outbox := outbox w @ [REQ]\<rparr>]"
      using request by simp
  qed (use request f g in \<open>simp_all add: result_hdrs_append\<close>)
next
  case (compute i buf w a k rest)
  note f = inv_fifo_nth [OF assms(1) compute(2)] and g = inv_fifo_got [OF assms(1)]
  show ?thesis
    using assms(1) compute(2)
  proof (rule inv_fifo_update)
    show "workers s' = (workers s)[i := w\<lparr>pc := W_Request,
          outbox := outbox w @ [RESULT a k
            (compute_rows (view_zoom v) (view_centerX v) (view_centerY v) a (a + k)
               (cfg_width c) (cfg_height c) (cfg_max_iter c) buf)],
          inbox := rest\<rparr>]"
      using compute by simp
  qed (use compute f g in \<open>simp_all add: result_hdrs_append\<close>)
next
  case (leave i buf w rest)
  note f = inv_fifo_nth [OF assms(1) leave(2)] and g = inv_fifo_got [OF assms(1)]
  show ?thesis
    using assms(1) leave(2)
  proof (rule inv_fifo_update)
    show "workers s' = (workers s)[i := w\<lparr>pc := W_Left, outbox := outbox w @ [DONE],
          inbox := rest\<rparr>]"
      using leave by simp
  qed (use leave f g in \<open>simp_all add: result_hdrs_append\<close>)
qed

lemma inv_log_same:
  assumes "inv_log s" "sent_assign s' = sent_assign s" "nextRow s' = nextRow s"
    "length (workers s') = length (workers s)"
  shows "inv_log s'"
  using assms by (simp add: inv_log_def)

lemma inv_log_step:
  assumes "inv_log s" "inv_rows c s" "step c v mv s = Next s'"
  shows "inv_log s'"
  using assms(3)
proof (cases rule: step_cases)
  case (assign i w rest)
  define r where "r = nextRow s"
  define k0 where "k0 = min (r + CHUNK_SIZE) (cfg_height c) - r"
  have r0: "0 \<le> r" using assms(2) by (simp add: inv_rows_def r_def)
  have k0: "0 < k0" using assign(6) CHUNK_SIZE_pos by (simp add: k0_def r_def)
  have sent: "sent_assign s' = sent_assign s @ [(i, r, k0)]"
    and nr: "nextRow s' = r + k0" and len: "length (workers s') = length (workers s)"
    using assign(7) by (simp_all add: r_def k0_def)
  have old: "i' < length (workers s) \<and> 0 \<le> a \<and> 0 < k \<and> a + k \<le> r"
    if "(i', a, k) \<in> set (sent_assign s)" for i' a k
    using assms(1) that by (auto simp: inv_log_def r_def)
  have one: "length (filter (covers y) (sent_assign s)) = 1" if "0 \<le> y" "y < r" for y
    using assms(1) that by (simp add: inv_log_def r_def)
  have none: "filter (covers y) (sent_assign s) = []" if "r \<le> y" for y
  proof -
    have "\<not> covers y e" if "e \<in> set (sent_assign s)" for e
    proof -
      obtain i' a k where e: "e = (i', a, k)" by (cases e)
      with old that have "a + k \<le> r" by blast
      with \<open>r \<le> y\<close> show ?thesis by (simp add: covers_def e)
    qed
    then show ?thesis by (simp add: filter_empty_conv)
  qed
  show ?thesis
    unfolding inv_log_def sent nr len
  proof (intro conjI ballI allI impI)
    fix e assume "e \<in> set (sent_assign s @ [(i, r, k0)])"
    then consider "e = (i, r, k0)" | "e \<in> set (sent_assign s)" by auto
    then show "case e of (i, a, k) \<Rightarrow> i < length (workers s) \<and> 0 \<le> a \<and> 0 < k \<and> a + k \<le> r + k0"
    proof cases
      case 1
      then show ?thesis using assign(3) r0 k0 by simp
    next
      case 2
      obtain i' a k where e: "e = (i', a, k)" by (cases e)
      with old 2 k0 show ?thesis by fastforce
    qed
  next
    fix y assume y: "0 \<le> y \<and> y < r + k0"
    show "length (filter (covers y) (sent_assign s @ [(i, r, k0)])) = 1"
    proof (cases "y < r")
      case True
      with y one show ?thesis by (simp add: covers_def)
    next
      case False
      with y none [of y] show ?thesis by (simp add: covers_def)
    qed
  qed
qed (use assms(1) in \<open>auto intro: inv_log_same\<close>)

lemma chunk_bytes_empty: "chunk_bytes c v a 0 = []"
  by (simp add: chunk_bytes_def)

lemma chunk_bytes_split:
  assumes "0 \<le> k1" "0 \<le> k2"
  shows "chunk_bytes c v a (k1 + k2) = chunk_bytes c v a k1 @ chunk_bytes c v (a + k1) k2"
proof -
  define m1 where "m1 = nat k1"
  define m2 where "m2 = nat k2"
  have k: "k1 = int m1" "k2 = int m2" using assms by (simp_all add: m1_def m2_def)
  have "[0..<m1 + m2] = [0..<m1] @ map (\<lambda>j. m1 + j) [0..<m2]"
    by (induction m2) simp_all
  then have "chunk_bytes c v a (int (m1 + m2))
      = chunk_bytes c v a (int m1) @ chunk_bytes c v (a + int m1) (int m2)"
    unfolding chunk_bytes_upt by (simp add: comp_def add.assoc)
  then show ?thesis by (simp add: k)
qed

lemma render_frame_chunk:
  assumes "config_ok c"
  shows "render_frame c v = chunk_bytes c v 0 (cfg_height c)"
proof -
  have "compute_rows (view_zoom v) (view_centerX v) (view_centerY v) 0 (cfg_height c)
           (cfg_width c) (cfg_height c) (cfg_max_iter c) (replicate (frame_size c) 0)
        = chunk_bytes c v 0 (cfg_height c - 0)"
    using assms by (intro compute_rows_chunk) (simp_all add: config_ok_def frame_size_def)
  then show ?thesis by (simp add: render_frame_def)
qed

lemma length_render_frame: "config_ok c \<Longrightarrow> length (render_frame c v) = frame_size c"
  by (simp add: render_frame_chunk length_chunk_bytes config_ok_def frame_size_def)

lemma render_frame_nth:
  assumes c: "config_ok c" and a: "0 \<le> a" and k: "0 \<le> k" and h: "a + k \<le> cfg_height c"
    and j: "j < nat (3 * cfg_width c * k)"
  shows "render_frame c v ! (nat (3 * cfg_width c * a) + j) = chunk_bytes c v a k ! j"
proof -
  have w: "0 \<le> cfg_width c" using c by (simp add: config_ok_def)
  define r where "r = cfg_height c - a - k"
  have r: "0 \<le> r" and hh: "cfg_height c = a + (k + r)" using h by (simp_all add: r_def)
  have "chunk_bytes c v 0 (a + (k + r)) = chunk_bytes c v 0 a @ chunk_bytes c v (0 + a) (k + r)"
    using a k r by (intro chunk_bytes_split) simp_all
  moreover have "chunk_bytes c v a (k + r) = chunk_bytes c v a k @ chunk_bytes c v (a + k) r"
    using k r by (rule chunk_bytes_split)
  ultimately have split: "render_frame c v
      = chunk_bytes c v 0 a @ chunk_bytes c v a k @ chunk_bytes c v (a + k) r"
    by (simp add: render_frame_chunk [OF c] hh)
  have la: "length (chunk_bytes c v 0 a) = nat (3 * cfg_width c * a)"
    using w a by (rule length_chunk_bytes)
  have lk: "length (chunk_bytes c v a k) = nat (3 * cfg_width c * k)"
    using w k by (rule length_chunk_bytes)
  show ?thesis
    unfolding split using j by (simp add: nth_append la lk)
qed

lemma nth_append3:
  "(pre @ p @ suf) ! j
     = (if j < length pre then pre ! j
        else if j < length pre + length p then p ! (j - length pre)
        else suf ! (j - length pre - length p))"
  by (auto simp: nth_append)

lemma store_nth:
  assumes "off + length p \<le> length fb" "j < length fb"
  shows "(take off fb @ p @ drop (off + length p) fb) ! j
         = (if off \<le> j \<and> j < off + length p then p ! (j - off) else fb ! j)"
proof -
  have lt: "length (take off fb) = off" using assms(1) by simp
  have pre: "take off fb ! j = fb ! j" if "j < off" using that by simp
  have suf: "drop (off + length p) fb ! (j - off - length p) = fb ! j" if "\<not> j < off + length p"
  proof -
    from that have "off + length p + (j - off - length p) = j" by simp
    then show ?thesis using assms by (simp del: drop_drop)
  qed
  show ?thesis
    unfolding nth_append3 lt using pre suf by auto
qed

lemma pending_result_bounds:
  assumes "inv_fifo s" "inv_log s" "inv_rows c s" "i < length (workers s)"
    and "outbox (workers s ! i) = RESULT a k p # rest"
  shows "0 \<le> a \<and> 0 < k \<and> a + k \<le> cfg_height c"
proof -
  have "(a, k) \<in> set (chunks_of i (sent_assign s))"
    using inv_fifo_nth [OF assms(1,4)] assms(5) by simp
  then have "(i, a, k) \<in> set (sent_assign s)" by (simp add: in_chunks_of)
  with assms(2) have "0 \<le> a \<and> 0 < k \<and> a + k \<le> nextRow s" by (auto simp: inv_log_def)
  with assms(3) show ?thesis by (simp add: inv_rows_def)
qed

lemma pending_assign_bounds:
  assumes "inv_fifo s" "inv_log s" "inv_rows c s" "i < length (workers s)"
    and "inbox (workers s ! i) = ASSIGN a k # rest"
  shows "0 \<le> a \<and> 0 < k \<and> a + k \<le> cfg_height c"
proof -
  have "(a, k) \<in> set (chunks_of i (sent_assign s))"
    using inv_fifo_nth [OF assms(1,4)] assms(5) by simp
  then have "(i, a, k) \<in> set (sent_assign s)" by (simp add: in_chunks_of)
  with assms(2) have "0 \<le> a \<and> 0 < k \<and> a + k \<le> nextRow s" by (auto simp: inv_log_def)
  with assms(3) show ?thesis by (simp add: inv_rows_def)
qed

lemma chunk_area:
  assumes "config_ok c" "0 \<le> a" "0 < k" "a + k \<le> cfg_height c"
  shows "0 \<le> 3 * cfg_width c * a" "0 \<le> 3 * cfg_width c * k"
    "3 * cfg_width c * a + 3 * cfg_width c * k \<le> int (frame_size c)"
proof -
  have w: "0 < cfg_width c" and h: "0 < cfg_height c" using assms(1) by (simp_all add: config_ok_def)
  show "0 \<le> 3 * cfg_width c * a" using w assms(2) by simp
  show "0 \<le> 3 * cfg_width c * k" using w assms(3) by simp
  have "3 * cfg_width c * (a + k) \<le> 3 * cfg_width c * cfg_height c"
    using w assms(4) by (intro mult_left_mono) simp_all
  moreover have "int (frame_size c) = 3 * cfg_width c * cfg_height c"
    using w h by (simp add: frame_size_def)
  ultimately show "3 * cfg_width c * a + 3 * cfg_width c * k \<le> int (frame_size c)"
    by (simp add: algebra_simps)
qed

lemma store_chunk_ok:
  assumes "config_ok c" "length fb = frame_size c" "0 \<le> a" "0 < k" "a + k \<le> cfg_height c"
    and "p = chunk_bytes c v a k"
  shows "store_chunk c fb a k p
         = Some (take (nat (3 * cfg_width c * a)) fb @ p @ drop (nat (3 * cfg_width c * a) + length p) fb)"
proof -
  have w: "0 \<le> cfg_width c" using assms(1) by (simp add: config_ok_def)
  have "length p = nat (3 * cfg_width c * k)"
    using w assms(4,6) by (simp add: length_chunk_bytes)
  moreover note chunk_area [OF assms(1,3,4,5)]
  ultimately show ?thesis using assms(2) by (simp add: store_chunk_def Let_def)
qed

lemma inv_data_same:
  assumes "inv_data c v s" "got_result s' = got_result s" "fullBuffer s' = fullBuffer s"
    and "workers s' = (workers s)[i := w']"
    and "\<And>a k p. RESULT a k p \<in> set (outbox w') \<Longrightarrow> p = chunk_bytes c v a k"
  shows "inv_data c v s'"
  using assms unfolding inv_data_def by (auto dest!: in_set_updateD)

lemma inv_data_nth:
  "inv_data c v s \<Longrightarrow> i < length (workers s) \<Longrightarrow> RESULT a k p \<in> set (outbox (workers s ! i)) \<Longrightarrow>
     p = chunk_bytes c v a k"
  unfolding inv_data_def using nth_mem by blast

lemma inv_data_step:
  assumes "config_ok c" "inv_rows c s" "inv_fifo s" "inv_log s" "inv_data c v s"
    and "step c v mv s = Next s'"
  shows "inv_data c v s'"
  using assms(6)
proof (cases rule: step_cases)
  case (assign i w rest)
  note d = inv_data_nth [OF assms(5) assign(3)]
  show ?thesis
    using assms(5)
  proof (rule inv_data_same)
    show "workers s' = (workers s)[i := w\<lparr>outbox := rest,
                  inbox := inbox w @ [ASSIGN (nextRow s)
                    (min (nextRow s + CHUNK_SIZE) (cfg_height c) - nextRow s)]\<rparr>]"
      using assign by simp
  qed (use assign d in auto)
next
  case (drain i w rest)
  note d = inv_data_nth [OF assms(5) drain(3)]
  show ?thesis
    using assms(5)
  proof (rule inv_data_same)
    show "workers s' = (workers s)[i := w\<lparr>outbox := rest, inbox := inbox w @ [TERMINATOR]\<rparr>]"
      using drain by simp
  qed (use drain d in auto)
next
  case (finish i w rest)
  note d = inv_data_nth [OF assms(5) finish(3)]
  show ?thesis
    using assms(5)
  proof (rule inv_data_same)
    show "workers s' = (workers s)[i := w\<lparr>outbox := rest\<rparr>]" using finish by simp
  qed (use finish d in auto)
next
  case (request i buf w)
  note d = inv_data_nth [OF assms(5) request(2)]
  show ?thesis
    using assms(5)
  proof (rule inv_data_same)
    show "workers s' = (workers s)[i := w\<lparr>pc := W_Await, outbox := outbox w @ [REQ]\<rparr>]"
      using request by simp
  qed (use request d in auto)
next
  case (leave i buf w rest)
  note d = inv_data_nth [OF assms(5) leave(2)]
  show ?thesis
    using assms(5)
  proof (rule inv_data_same)
    show "workers s' = (workers s)[i := w\<lparr>pc := W_Left, outbox := outbox w @ [DONE],
          inbox := rest\<rparr>]"
      using leave by simp
  qed (use leave d in auto)
next
  case (compute i buf w a k rest)
  note d = inv_data_nth [OF assms(5) compute(2)]
  have b: "0 \<le> a \<and> 0 < k \<and> a + k \<le> cfg_height c"
    using assms(3,4,2) compute(2) by (rule pending_assign_bounds) (use compute in simp)
  have "compute_rows (view_zoom v) (view_centerX v) (view_centerY v) a (a + k)
               (cfg_width c) (cfg_height c) (cfg_max_iter c) buf = chunk_bytes c v a (a + k - a)"
    using assms(1) b compute(6) by (intro compute_rows_chunk) (simp_all add: config_ok_def)
  then have new: "compute_rows (view_zoom v) (view_centerX v) (view_centerY v) a (a + k)
               (cfg_width c) (cfg_height c) (cfg_max_iter c) buf = chunk_bytes c v a k"
    by simp
  show ?thesis
    using assms(5)
  proof (rule inv_data_same)
    show "workers s' = (workers s)[i := w\<lparr>pc := W_Request,
          outbox := outbox w @ [RESULT a k
            (compute_rows (view_zoom v) (view_centerX v) (view_centerY v) a (a + k)
               (cfg_width c) (cfg_height c) (cfg_max_iter c) buf)],
          inbox := rest\<rparr>]"
      using compute by simp
  qed (use compute d new in auto)
next
  case (store i w a k p rest fb)
  note d = inv_data_nth [OF assms(5) store(3)]
  have b: "0 \<le> a \<and> 0 < k \<and> a + k \<le> cfg_height c"
    using assms(3,4,2) store(3) by (rule pending_result_bounds) (use store in simp)
  have p: "p = chunk_bytes c v a k" using d store(4,5) by simp
  have w0: "0 \<le> cfg_width c" using assms(1) by (simp add: config_ok_def)
  have lp: "length p = nat (3 * cfg_width c * k)" using w0 b p by (simp add: length_chunk_bytes)
  define off where "off = nat (3 * cfg_width c * a)"
  have lfb: "length (fullBuffer s) = frame_size c" using assms(2) by (simp add: inv_rows_def)
  note area = chunk_area [OF assms(1) b [THEN conjunct1] b [THEN conjunct2, THEN conjunct1]
      b [THEN conjunct2, THEN conjunct2]]
  have fit: "off + length p \<le> length (fullBuffer s)"
    using area unfolding off_def lp lfb by linarith
  have fb: "fb = take off (fullBuffer s) @ p @ drop (off + length p) (fullBuffer s)"
    using store_chunk_SomeD(3) [OF store(6)] by (simp add: off_def)
  have wr: "writes c j (i, a, k) \<longleftrightarrow> off \<le> j \<and> j < off + length p" for j
    using area unfolding writes_def off_def lp prod.case by linarith
  show ?thesis
    unfolding inv_data_def
  proof (intro conjI ballI allI impI)
    fix w' a' k' p' assume "w' \<in> set (workers s')" "RESULT a' k' p' \<in> set (outbox w')"
    then show "p' = chunk_bytes c v a' k'"
      using assms(5) store d by (auto simp: inv_data_def dest!: in_set_updateD)
  next
    fix j assume j: "j < frame_size c" and ex: "\<exists>e \<in> set (got_result s'). writes c j e"
    have nth: "fullBuffer s' ! j = (if off \<le> j \<and> j < off + length p then p ! (j - off) else fullBuffer s ! j)"
      using store_nth [OF fit, of j] j by (simp add: store(7) fb lfb)
    show "fullBuffer s' ! j = render_frame c v ! j"
    proof (cases "off \<le> j \<and> j < off + length p")
      case True
      then have jj: "j - off < nat (3 * cfg_width c * k)" unfolding lp by linarith
      have "render_frame c v ! (nat (3 * cfg_width c * a) + (j - off)) = chunk_bytes c v a k ! (j - off)"
        using assms(1) b jj by (intro render_frame_nth) simp_all
      moreover have "nat (3 * cfg_width c * a) + (j - off) = j" using True by (simp add: off_def)
      ultimately show ?thesis using True nth p by simp
    next
      case False
      then have "\<not> writes c j (i, a, k)" by (simp add: wr)
      with ex have "\<exists>e \<in> set (got_result s). writes c j e" by (auto simp: store(7))
      with assms(5) j have "fullBuffer s ! j = render_frame c v ! j" by (simp add: inv_data_def)
      moreover from False nth have "fullBuffer s' ! j = fullBuffer s ! j" by (simp only: if_False)
      ultimately show ?thesis by simp
    qed
  qed
qed

subsection \<open>No fault, progress and termination\<close>

lemma inv_step:
  assumes "config_ok c" "inv c v s" "step c v mv s = Next s'"
  shows "inv c v s'"
proof -
  from assms(2) have i: "inv_rows c s" "inv_workers s" "inv_drain c s" "inv_fifo s" "inv_log s"
      "inv_data c v s"
    by (simp_all add: inv_def)
  from inv_rows_step [OF i(1) assms(3)] inv_workers_step [OF i(2) assms(3)]
    inv_drain_step [OF i(3) assms(3)] inv_fifo_step [OF i(4) assms(3)]
    inv_log_step [OF i(5) i(1) assms(3)] inv_data_step [OF assms(1) i(1,4,5,6) assms(3)]
  show ?thesis by (simp add: inv_def)
qed

lemma inv_init:
  assumes "config_ok c" "1 \<le> world_size" "length fb = frame_size c"
  shows "inv c v (frame_init world_size fb)"
proof -
  have "sum_list (map active (replicate n \<lparr>pc = W_Request, outbox = [], inbox = []\<rparr>)) = int n" for n
    by (induction n) (simp_all add: active_def)
  then have "inv_workers (frame_init world_size fb)"
    using assms(2) by (auto simp: inv_workers_def frame_init_def worker_ok_def)
  moreover have "inv_rows c (frame_init world_size fb)"
    using assms(1,3) by (simp add: inv_rows_def frame_init_def config_ok_def)
  moreover have "inv_drain c (frame_init world_size fb)"
    using assms(1) by (simp add: inv_drain_def frame_init_def config_ok_def)
  moreover have "inv_fifo (frame_init world_size fb)"
    by (simp add: inv_fifo_def frame_init_def chunks_of_def)
  moreover have "inv_log (frame_init world_size fb)"
    by (simp add: inv_log_def frame_init_def)
  moreover have "inv_data c v (frame_init world_size fb)"
    by (simp add: inv_data_def frame_init_def)
  ultimately show ?thesis by (simp add: inv_def)
qed

lemma worker_step_no_fault: "worker_step c v i buf s \<noteq> Fault"
  by (auto simp: worker_step_def Let_def split: wpc.splits list.splits to_worker.splits)

lemma master_step_FaultD:
  assumes "master_step c i s = Fault"
  shows "\<exists>a k p rest. i < length (workers s) \<and> outbox (workers s ! i) = RESULT a k p # rest
           \<and> store_chunk c (fullBuffer s) a k p = None"
  using assms
  by (auto simp: master_step_def Let_def
      split: if_splits list.splits to_master.splits option.splits prod.splits)

lemma step_no_fault:
  assumes "config_ok c" "inv c v s"
  shows "step c v mv s \<noteq> Fault"
proof (cases mv)
  case (Worker i buf)
  then show ?thesis by (simp add: step_def worker_step_no_fault)
next
  case (Master i)
  show ?thesis
  proof
    assume "step c v mv s = Fault"
    with Master have "master_step c i s = Fault" by (simp add: step_def)
    from master_step_FaultD [OF this] obtain a k p rest where
      i: "i < length (workers s)" and o: "outbox (workers s ! i) = RESULT a k p # rest"
      and n: "store_chunk c (fullBuffer s) a k p = None" by blast
    from assms(2) have inv: "inv_rows c s" "inv_fifo s" "inv_log s" "inv_data c v s"
      by (simp_all add: inv_def)
    have b: "0 \<le> a \<and> 0 < k \<and> a + k \<le> cfg_height c"
      using inv(2,3,1) i o by (rule pending_result_bounds)
    have p: "p = chunk_bytes c v a k" using inv_data_nth [OF inv(4) i] o by simp
    have "length (fullBuffer s) = frame_size c" using inv(1) by (simp add: inv_rows_def)
    from store_chunk_ok [OF assms(1) this _ _ _ p] b n show False by simp
  qed
qed

lemma exec_append:
  "exec c v (xs @ ys) s
     = (case exec c v xs s of Next s' \<Rightarrow> exec c v ys s' | Blocked \<Rightarrow> Blocked | Fault \<Rightarrow> Fault)"
  by (induction xs arbitrary: s) (simp_all split: outcome.splits)

lemma inv_exec:
  assumes "config_ok c"
  shows "inv c v s \<Longrightarrow> exec c v sch s = Next s' \<Longrightarrow> inv c v s'"
proof (induction sch arbitrary: s)
  case Nil
  then show ?case by simp
next
  case (Cons mv sch)
  from Cons.prems(2) obtain s1 where s1: "step c v mv s = Next s1" "exec c v sch s1 = Next s'"
    by (auto split: outcome.splits)
  from inv_step [OF assms Cons.prems(1) s1(1)] s1(2) show ?case by (rule Cons.IH)
qed

lemma exec_no_fault:
  assumes "config_ok c"
  shows "inv c v s \<Longrightarrow> exec c v sch s \<noteq> Fault"
proof (induction sch arbitrary: s)
  case Nil
  then show ?case by simp
next
  case (Cons mv sch)
  show ?case
  proof (cases "step c v mv s")
    case (Next s1)
    with Cons.IH [OF inv_step [OF assms Cons.prems Next]] show ?thesis by simp
  next
    case Blocked
    then show ?thesis by simp
  next
    case Fault
    with step_no_fault [OF assms Cons.prems, of mv] show ?thesis by simp
  qed
qed

lemma potential_update:
  assumes "i < length (workers s)" "workers s' = (workers s)[i := w']"
  shows "potential c s' + weight (workers s ! i) + 4 * nat (cfg_height c - nextRow s)
         = potential c s + weight w' + 4 * nat (cfg_height c - nextRow s')"
  using sum_list_map_update [OF assms(1), of weight w'] by (simp add: potential_def assms(2))

lemma sum_list_weight_append [simp]:
  "sum_list (map up_weight (xs @ ys)) = sum_list (map up_weight xs) + sum_list (map up_weight ys)"
  "sum_list (map down_weight (as @ bs)) = sum_list (map down_weight as) + sum_list (map down_weight bs)"
  by simp_all

lemma potential_step:
  assumes "step c v mv s = Next s'"
  shows "potential c s' < potential c s"
  using assms
proof (cases rule: step_cases)
  case (assign i w rest)
  have "nextRow s < nextRow s'" "nextRow s' \<le> cfg_height c"
    using assign(6,7) CHUNK_SIZE_pos by simp_all
  then have "4 * nat (cfg_height c - nextRow s') + 4 \<le> 4 * nat (cfg_height c - nextRow s)"
    by linarith
  moreover have "workers s' = (workers s)[i := w\<lparr>outbox := rest,
                  inbox := inbox w @ [ASSIGN (nextRow s)
                    (min (nextRow s + CHUNK_SIZE) (cfg_height c) - nextRow s)]\<rparr>]"
    using assign by simp
  note potential_update [OF assign(3) this, of c]
  ultimately show ?thesis using assign(4,5) by (simp add: weight_def)
next
  case (drain i w rest)
  have "workers s' = (workers s)[i := w\<lparr>outbox := rest, inbox := inbox w @ [TERMINATOR]\<rparr>]"
    "nextRow s' = nextRow s" using drain by simp_all
  with potential_update [OF drain(3) this(1), of c] drain(4,5) show ?thesis
    by (simp add: weight_def)
next
  case (store i w a k p rest fb)
  have "workers s' = (workers s)[i := w\<lparr>outbox := rest\<rparr>]" "nextRow s' = nextRow s"
    using store by simp_all
  with potential_update [OF store(3) this(1), of c] store(4,5) show ?thesis
    by (simp add: weight_def)
next
  case (finish i w rest)
  have "workers s' = (workers s)[i := w\<lparr>outbox := rest\<rparr>]" "nextRow s' = nextRow s"
    using finish by simp_all
  with potential_update [OF finish(3) this(1), of c] finish(4,5) show ?thesis
    by (simp add: weight_def)
next
  case (request i buf w)
  have "workers s' = (workers s)[i := w\<lparr>pc := W_Await, outbox := outbox w @ [REQ]\<rparr>]"
    "nextRow s' = nextRow s" using request by simp_all
  with potential_update [OF request(2) this(1), of c] request(3,4) show ?thesis
    by (simp add: weight_def)
next
  case (compute i buf w a k rest)
  have "workers s' = (workers s)[i := w\<lparr>pc := W_Request,
          outbox := outbox w @ [RESULT a k
            (compute_rows (view_zoom v) (view_centerX v) (view_centerY v) a (a + k)
               (cfg_width c) (cfg_height c) (cfg_max_iter c) buf)],
          inbox := rest\<rparr>]"
    "nextRow s' = nextRow s" using compute by simp_all
  with potential_update [OF compute(2) this(1), of c] compute(3,4,5) show ?thesis
    by (simp add: weight_def)
next
  case (leave i buf w rest)
  have "workers s' = (workers s)[i := w\<lparr>pc := W_Left, outbox := outbox w @ [DONE],
          inbox := rest\<rparr>]"
    "nextRow s' = nextRow s" using leave by simp_all
  with potential_update [OF leave(2) this(1), of c] leave(3,4,5) show ?thesis
    by (simp add: weight_def)
qed

lemma exec_length_bound:
  "exec c v sch s = Next s' \<Longrightarrow> length sch + potential c s' \<le> potential c s"
proof (induction sch arbitrary: s)
  case Nil
  then show ?case by simp
next
  case (Cons mv sch)
  from Cons.prems obtain s1 where s1: "step c v mv s = Next s1" "exec c v sch s1 = Next s'"
    by (auto split: outcome.splits)
  from Cons.IH [OF s1(2)] potential_step [OF s1(1)] show ?case by simp
qed

lemma active_range: "0 \<le> active w" "active w \<le> 1"
  by (simp_all add: active_def)

lemma sum_active_pos:
  "0 < sum_list (map active ws) \<Longrightarrow> \<exists>i < length ws. active (ws ! i) = 1"
proof (induction ws)
  case Nil
  then show ?case by simp
next
  case (Cons w ws)
  show ?case
  proof (cases "active w = 1")
    case True
    then show ?thesis by auto
  next
    case False
    then have "active w = 0" by (simp add: active_def split: if_splits)
    with Cons.prems have "0 < sum_list (map active ws)" by simp
    from Cons.IH [OF this] obtain i where "i < length ws" "active (ws ! i) = 1" by blast
    then have "Suc i < length (w # ws) \<and> active ((w # ws) ! Suc i) = 1" by simp
    then show ?thesis by blast
  qed
qed

lemma sum_active_zero:
  "sum_list (map active ws) \<le> 0 \<Longrightarrow> w \<in> set ws \<Longrightarrow> active w = 0"
proof (induction ws)
  case Nil
  then show ?case by simp
next
  case (Cons x ws)
  have nn: "0 \<le> sum_list (map active ws)"
    by (rule sum_list_nonneg) (auto simp: active_def)
  from Cons.prems(1) nn active_range(1) [of x] have "active x = 0" "sum_list (map active ws) \<le> 0"
    by simp_all
  with Cons.IH Cons.prems(2) show ?case by auto
qed

lemma master_step_enabled:
  assumes "0 < activeWorkers s" "i < length (workers s)" "outbox (workers s ! i) \<noteq> []"
  shows "master_step c i s \<noteq> Blocked"
  using assms
  by (auto simp: master_step_def Let_def
      split: list.splits to_master.splits option.splits prod.splits)

lemma progress:
  assumes "config_ok c" "inv c v s" "\<not> frame_done s"
  shows "\<exists>mv s'. step c v mv s = Next s'"
proof -
  from assms(2) have iw: "inv_workers s" by (simp add: inv_def)
  from assms(3) have a: "0 < activeWorkers s" by (simp add: frame_done_def)
  with iw have "0 < sum_list (map active (workers s))" by (simp add: inv_workers_def)
  from sum_active_pos [OF this] obtain i where i: "i < length (workers s)"
    and act: "active (workers s ! i) = 1" by blast
  define w where "w = workers s ! i"
  have ok: "worker_ok w" using iw i by (simp add: w_def inv_workers_nth)
  have master: "\<exists>mv s'. step c v mv s = Next s'" if "outbox w \<noteq> []"
  proof -
    have "master_step c i s \<noteq> Blocked" using a i that by (intro master_step_enabled) (simp_all add: w_def)
    moreover have "master_step c i s \<noteq> Fault"
      using step_no_fault [OF assms(1,2), of "Master i"] by (simp add: step_def)
    ultimately obtain s' where "master_step c i s = Next s'" by (cases "master_step c i s") auto
    then have "step c v (Master i) s = Next s'" by (simp add: step_def)
    then show ?thesis by blast
  qed
  show ?thesis
  proof (cases "pc w")
    case W_Request
    then have "\<exists>s'. step c v (Worker i []) s = Next s'"
      using i by (simp add: step_def worker_step_def w_def Let_def)
    then show ?thesis by blast
  next
    case W_Left
    with act have "outbox w \<noteq> []" by (auto simp: active_def w_def)
    then show ?thesis by (rule master)
  next
    case W_Await
    show ?thesis
    proof (cases "inbox w")
      case Nil
      with ok W_Await have "outbox w \<noteq> []" by (auto simp: worker_ok_def)
      then show ?thesis by (rule master)
    next
      case (Cons m rest)
      show ?thesis
      proof (cases m)
        case (ASSIGN a k)
        with Cons W_Await i
        have "\<exists>s'. step c v (Worker i (replicate (nat (3 * cfg_width c * k)) 0)) s = Next s'"
          by (simp add: step_def worker_step_def w_def Let_def)
        then show ?thesis by blast
      next
        case TERMINATOR
        with Cons W_Await i have "\<exists>s'. step c v (Worker i []) s = Next s'"
          by (simp add: step_def worker_step_def w_def Let_def)
        then show ?thesis by blast
      qed
    qed
  qed
qed

lemma completion:
  assumes "config_ok c"
  shows "inv c v s \<Longrightarrow> \<exists>sch s'. exec c v sch s = Next s' \<and> frame_done s'"
proof (induction "potential c s" arbitrary: s rule: less_induct)
  case less
  show ?case
  proof (cases "frame_done s")
    case True
    then have "exec c v [] s = Next s \<and> frame_done s" by simp
    then show ?thesis by blast
  next
    case False
    from progress [OF assms less.prems False] obtain mv s1 where s1: "step c v mv s = Next s1"
      by blast
    from less.hyps [OF potential_step [OF s1] inv_step [OF assms less.prems s1]]
    obtain sch s' where "exec c v sch s1 = Next s'" "frame_done s'" by blast
    with s1 have "exec c v (mv # sch) s = Next s' \<and> frame_done s'" by simp
    then show ?thesis by blast
  qed
qed

text \<open>The state at the end of a frame.\<close>

lemma count_chunks_of: "count (mset es) (i, h) = count (mset (chunks_of i es)) h"
proof (induction es)
  case Nil
  then show ?case by (simp add: chunks_of_def)
next
  case (Cons e es)
  obtain i' h' where e: "e = (i', h')" by (cases e)
  from Cons show ?case by (auto simp: chunks_of_def e)
qed

lemma length_filter_mset: "mset xs = mset ys \<Longrightarrow> length (filter P xs) = length (filter P ys)"
proof -
  assume "mset xs = mset ys"
  then have "filter_mset P (mset xs) = filter_mset P (mset ys)" by simp
  then have "mset (filter P xs) = mset (filter P ys)" by simp
  then show ?thesis by (metis size_mset)
qed

lemma in_band:
  fixes L :: int
  assumes "0 < L" "L * y \<le> j" "j < L * (y + 1)"
  shows "(L * a \<le> j \<and> j < L * (a + k)) \<longleftrightarrow> (a \<le> y \<and> y < a + k)"
proof
  assume h: "L * a \<le> j \<and> j < L * (a + k)"
  from h assms(3) have 1: "L * a < L * (y + 1)" by linarith
  from h assms(2) have 2: "L * y < L * (a + k)" by linarith
  from 1 assms(1) have "a < y + 1" by (metis mult_less_cancel_left_pos)
  moreover from 2 assms(1) have "y < a + k" by (metis mult_less_cancel_left_pos)
  ultimately show "a \<le> y \<and> y < a + k" by simp
next
  assume h: "a \<le> y \<and> y < a + k"
  then have "a \<le> y" "y + 1 \<le> a + k" by simp_all
  then have "L * a \<le> L * y" "L * (y + 1) \<le> L * (a + k)"
    using assms(1) by (simp_all only: mult_le_cancel_left_pos)
  with assms(2,3) show "L * a \<le> j \<and> j < L * (a + k)" by linarith
qed

lemma band_exists:
  fixes L :: int
  assumes "0 < L" "0 \<le> j" "j < L * h"
  shows "\<exists>y. 0 \<le> y \<and> y < h \<and> L * y \<le> j \<and> j < L * (y + 1)"
proof -
  define y where "y = j div L"
  have "j = L * y + j mod L" by (simp add: y_def)
  moreover have "0 \<le> j mod L" "j mod L < L" using assms(1) by simp_all
  ultimately have b: "L * y \<le> j" "j < L * (y + 1)" by (simp_all add: algebra_simps)
  from b(2) assms(2) have "L * 0 < L * (y + 1)" by simp
  with assms(1) have "0 < y + 1" by (metis mult_less_cancel_left_pos)
  moreover from b(1) assms(3) have "L * y < L * h" by linarith
  with assms(1) have "y < h" by (metis mult_less_cancel_left_pos)
  ultimately show ?thesis using b by auto
qed


subsection \<open>The end of a frame\<close>

lemma frame_final:
  assumes c: "config_ok c" and inv: "inv c v s" and ws: "workers s \<noteq> []" and d: "frame_done s"
  shows "nextRow s = cfg_height c"
    and "\<forall>w \<in> set (workers s). pc w = W_Left \<and> outbox w = [] \<and> inbox w = []"
    and "mset (got_result s) = mset (sent_assign s)"
    and "\<forall>y. 0 \<le> y \<and> y < cfg_height c \<longrightarrow> length (filter (covers y) (sent_assign s)) = 1"
    and "\<forall>j < frame_size c. length (filter (writes c j) (got_result s)) = 1"
    and "fullBuffer s = render_frame c v"
proof -
  from inv have i: "inv_rows c s" "inv_workers s" "inv_drain c s" "inv_fifo s" "inv_log s"
      "inv_data c v s"
    by (simp_all add: inv_def)
  have sum0: "sum_list (map active (workers s)) \<le> 0"
    using i(2) d by (simp add: inv_workers_def frame_done_def)
  show left: "\<forall>w \<in> set (workers s). pc w = W_Left \<and> outbox w = [] \<and> inbox w = []"
  proof
    fix w assume w: "w \<in> set (workers s)"
    from sum_active_zero [OF sum0 w] have "pc w = W_Left \<and> outbox w = []"
      by (simp add: active_def split: if_splits)
    moreover from i(2) w have "worker_ok w" by (simp add: inv_workers_def)
    ultimately show "pc w = W_Left \<and> outbox w = [] \<and> inbox w = []" by (simp add: worker_ok_def)
  qed
  from ws obtain w0 where w0: "w0 \<in> set (workers s)" by (cases "workers s") auto
  with left have "pc w0 = W_Left" by blast
  with i(3) w0 have "cfg_height c \<le> nextRow s" by (auto simp: inv_drain_def)
  with i(1) show nr: "nextRow s = cfg_height c" by (simp add: inv_rows_def)
  show ms: "mset (got_result s) = mset (sent_assign s)"
  proof (rule multiset_eqI)
    fix e :: "nat \<times> int \<times> int"
    obtain j h where e: "e = (j, h)" by (cases e)
    show "count (mset (got_result s)) e = count (mset (sent_assign s)) e"
    proof (cases "j < length (workers s)")
      case True
      from left True have "outbox (workers s ! j) = []" "inbox (workers s ! j) = []" by simp_all
      with inv_fifo_nth [OF i(4) True]
      have "chunks_of j (sent_assign s) = chunks_of j (got_result s)" by simp
      then show ?thesis by (simp add: e count_chunks_of)
    next
      case False
      have "e \<notin> set (got_result s)" using inv_fifo_got [OF i(4)] False by (auto simp: e)
      moreover have "e \<notin> set (sent_assign s)" using i(5) False by (auto simp: inv_log_def e)
      ultimately show ?thesis by (simp add: count_mset_0_iff [THEN iffD2] del: count_mset)
    qed
  qed
  show cov: "\<forall>y. 0 \<le> y \<and> y < cfg_height c \<longrightarrow> length (filter (covers y) (sent_assign s)) = 1"
    using i(5) nr by (simp add: inv_log_def)
  have L: "0 < 3 * cfg_width c" and h: "0 < cfg_height c" using c by (simp_all add: config_ok_def)
  show wr: "\<forall>j < frame_size c. length (filter (writes c j) (got_result s)) = 1"
  proof (intro allI impI)
    fix j assume j: "j < frame_size c"
    have "int (frame_size c) = 3 * cfg_width c * cfg_height c"
      using L h by (simp add: frame_size_def)
    with j have "int j < 3 * cfg_width c * cfg_height c" by linarith
    from band_exists [OF L _ this] obtain y where y: "0 \<le> y" "y < cfg_height c"
      "3 * cfg_width c * y \<le> int j" "int j < 3 * cfg_width c * (y + 1)" by auto
    have "writes c j e = covers y e" for e
    proof -
      obtain i' a k where e: "e = (i', a, k)" by (cases e)
      show ?thesis
        using in_band [OF L y(3,4), of a k] by (simp add: writes_def covers_def e algebra_simps)
    qed
    then have "filter (writes c j) (got_result s) = filter (covers y) (got_result s)"
      by (intro filter_cong refl)
    also have "length \<dots> = length (filter (covers y) (sent_assign s))"
      using ms by (rule length_filter_mset)
    finally show "length (filter (writes c j) (got_result s)) = 1" using cov y by simp
  qed
  show "fullBuffer s = render_frame c v"
  proof (rule nth_equalityI)
    show "length (fullBuffer s) = length (render_frame c v)"
      using i(1) by (simp add: inv_rows_def length_render_frame [OF c])
  next
    fix j assume "j < length (fullBuffer s)"
    then have j: "j < frame_size c" using i(1) by (simp add: inv_rows_def)
    with wr have "filter (writes c j) (got_result s) \<noteq> []" by auto
    then have "\<exists>e \<in> set (got_result s). writes c j e" by (simp add: filter_empty_conv)
    with i(6) j show "fullBuffer s ! j = render_frame c v ! j" by (simp add: inv_data_def)
  qed
qed

lemma exec_init_inv:
  assumes "config_ok c" "1 \<le> world_size" "length fb = frame_size c"
    and "exec c v sch (frame_init world_size fb) = Next s"
  shows "inv c v s"
  using inv_exec [OF assms(1) inv_init [OF assms(1,2,3)] assms(4)] .

lemma step_workers_length:
  assumes "step c v mv s = Next s'"
  shows "length (workers s') = length (workers s)"
  using assms by (cases rule: step_cases) simp_all

lemma exec_workers_length:
  "exec c v sch s = Next s' \<Longrightarrow> length (workers s') = length (workers s)"
proof (induction sch arbitrary: s)
  case Nil
  then show ?case by simp
next
  case (Cons mv sch)
  from Cons.prems obtain s1 where s1: "step c v mv s = Next s1" "exec c v sch s1 = Next s'"
    by (auto split: outcome.splits)
  from Cons.IH [OF s1(2)] step_workers_length [OF s1(1)] show ?case by simp
qed

lemma dispatch_frame:
  assumes "config_ok c" "2 \<le> world_size" "length fb = frame_size c"
    and "exec c v sch (frame_init world_size fb) = Next s" "frame_done s"
  shows "fullBuffer s = render_frame c v"
proof -
  from assms(2) have 1: "1 \<le> world_size" by simp
  have "length (workers s) = world_size - 1"
    using exec_workers_length [OF assms(4)] by (simp add: frame_init_def)
  with assms(2) have "workers s \<noteq> []" by auto
  from frame_final(6) [OF assms(1) exec_init_inv [OF assms(1) 1 assms(3,4)] this assms(5)]
  show ?thesis .
qed

lemma in_result_hdrs: "RESULT a k p \<in> set ms \<Longrightarrow> (a, k) \<in> set (result_hdrs ms)"
  by (induction ms rule: result_hdrs.induct) auto

lemma assign_chunk_eq:
  "assign_chunk c r =
     (if cfg_height c \<le> r then (TERMINATOR, r)
      else (ASSIGN r (min CHUNK_SIZE (cfg_height c - r)), r + min CHUNK_SIZE (cfg_height c - r)))"
  by (simp add: assign_chunk_def Let_def min_def)

lemma reachable_safe:
  assumes c: "config_ok c" and inv: "inv c v s"
  shows "\<forall>i < length (workers s).
           chunks_of i (sent_assign s)
             = chunks_of i (got_result s) @ result_hdrs (outbox (workers s ! i))
                 @ assign_hdrs (inbox (workers s ! i))"
    and "\<forall>i buf s' a k rest.
           worker_step c v i buf s = Next s' \<and> inbox (workers s ! i) = ASSIGN a k # rest
           \<longrightarrow> outbox (workers s' ! i) = outbox (workers s ! i) @ [RESULT a k (chunk_bytes c v a k)]"
    and "\<forall>e \<in> set (sent_assign s). case e of (i, a, k) \<Rightarrow> 0 \<le> a \<and> 0 < k \<and> a + k \<le> cfg_height c"
    and "\<forall>i < length (workers s). \<forall>a k p. RESULT a k p \<in> set (outbox (workers s ! i))
           \<longrightarrow> 0 \<le> a \<and> 0 < k \<and> a + k \<le> cfg_height c
               \<and> int (length p) = 3 * cfg_width c * k
               \<and> 0 \<le> 3 * cfg_width c * a
               \<and> 3 * cfg_width c * a + 3 * cfg_width c * k \<le> int (length (fullBuffer s))"
    and "\<forall>mv. step c v mv s \<noteq> Fault"
proof -
  from inv have i: "inv_rows c s" "inv_workers s" "inv_drain c s" "inv_fifo s" "inv_log s"
      "inv_data c v s"
    by (simp_all add: inv_def)
  have w0: "0 \<le> cfg_width c" using c by (simp add: config_ok_def)
  have lfb: "length (fullBuffer s) = frame_size c" using i(1) by (simp add: inv_rows_def)
  show "\<forall>i < length (workers s).
           chunks_of i (sent_assign s)
             = chunks_of i (got_result s) @ result_hdrs (outbox (workers s ! i))
                 @ assign_hdrs (inbox (workers s ! i))"
    using i(4) by (simp add: inv_fifo_def)
  show "\<forall>mv. step c v mv s \<noteq> Fault" using step_no_fault [OF c inv] by blast
  show sent: "\<forall>e \<in> set (sent_assign s). case e of (i, a, k) \<Rightarrow> 0 \<le> a \<and> 0 < k \<and> a + k \<le> cfg_height c"
    using i(1,5) by (fastforce simp: inv_log_def inv_rows_def)
  show "\<forall>i < length (workers s). \<forall>a k p. RESULT a k p \<in> set (outbox (workers s ! i))
           \<longrightarrow> 0 \<le> a \<and> 0 < k \<and> a + k \<le> cfg_height c
               \<and> int (length p) = 3 * cfg_width c * k
               \<and> 0 \<le> 3 * cfg_width c * a
               \<and> 3 * cfg_width c * a + 3 * cfg_width c * k \<le> int (length (fullBuffer s))"
  proof (intro allI impI)
    fix j a k p assume j: "j < length (workers s)" and r: "RESULT a k p \<in> set (outbox (workers s ! j))"
    from in_result_hdrs [OF r] inv_fifo_nth [OF i(4) j]
    have "(a, k) \<in> set (chunks_of j (sent_assign s))" by simp
    then have "(j, a, k) \<in> set (sent_assign s)" by (simp add: in_chunks_of)
    with sent have b: "0 \<le> a" "0 < k" "a + k \<le> cfg_height c" by auto
    have p: "p = chunk_bytes c v a k" using inv_data_nth [OF i(6) j r] .
    have "length p = nat (3 * cfg_width c * k)" using w0 b(2) by (simp add: p length_chunk_bytes)
    moreover note chunk_area [OF c b]
    ultimately show "0 \<le> a \<and> 0 < k \<and> a + k \<le> cfg_height c
               \<and> int (length p) = 3 * cfg_width c * k
               \<and> 0 \<le> 3 * cfg_width c * a
               \<and> 3 * cfg_width c * a + 3 * cfg_width c * k \<le> int (length (fullBuffer s))"
      using b by (simp add: lfb)
  qed
  show "\<forall>i buf s' a k rest.
           worker_step c v i buf s = Next s' \<and> inbox (workers s ! i) = ASSIGN a k # rest
           \<longrightarrow> outbox (workers s' ! i) = outbox (workers s ! i) @ [RESULT a k (chunk_bytes c v a k)]"
  proof (intro allI impI, elim conjE)
    fix j buf s' a k rest
    assume st: "worker_step c v j buf s = Next s'" and inb: "inbox (workers s ! j) = ASSIGN a k # rest"
    from st show "outbox (workers s' ! j) = outbox (workers s ! j) @ [RESULT a k (chunk_bytes c v a k)]"
    proof (cases rule: worker_step_cases)
      case (request w)
      from inv_workers_nth [OF i(2) request(1)] request(2,3) inb show ?thesis
        by (simp add: worker_ok_def)
    next
      case (leave w rest')
      with inb show ?thesis by simp
    next
      case (compute w a' k' rest')
      with inb have ak: "a' = a" "k' = k" by simp_all
      have b: "0 \<le> a \<and> 0 < k \<and> a + k \<le> cfg_height c"
        using i(4,5,1) compute(1) inb by (rule pending_assign_bounds)
      have "compute_rows (view_zoom v) (view_centerX v) (view_centerY v) a (a + k)
               (cfg_width c) (cfg_height c) (cfg_max_iter c) buf = chunk_bytes c v a (a + k - a)"
        using w0 b compute(5) by (intro compute_rows_chunk) (simp_all add: ak)
      then show ?thesis using compute(1,2,6) by (simp add: ak)
    qed
  qed
qed

text \<open>The bytes a receive writes, and the moves of a run that write a byte.\<close>

lemma store_chunk_map:
  assumes "store_chunk c fb a k p = Some fb'"
  shows "store_chunk c (map f fb) a k p
     = Some (take (nat (3 * cfg_width c * a)) (map f fb) @ p
          @ drop (nat (3 * cfg_width c * a) + length p) (map f fb))"
  using assms by (simp add: store_chunk_def Let_def split: if_splits)

lemma store_chunk_same_byte:
  assumes "store_chunk c fb a k p = Some fb1" "j < length fb"
  shows "\<exists>fb2. store_chunk c (map (\<lambda>b. b + 1) fb) a k p = Some fb2
     \<and> (fb1 ! j = fb2 ! j
          \<longleftrightarrow> nat (3 * cfg_width c * a) \<le> j \<and> j < nat (3 * cfg_width c * a) + length p)"
proof -
  let ?off = "nat (3 * cfg_width c * a)"
  let ?fb' = "map (\<lambda>b. b + 1) fb"
  note d = store_chunk_SomeD [OF assms(1)]
  have ne: "b \<noteq> b + 1" for b :: byte by simp
  have 1: "fb1 ! j = (if ?off \<le> j \<and> j < ?off + length p then p ! (j - ?off) else fb ! j)"
    unfolding d(3) using d(2) assms(2) by (rule store_nth)
  have 2: "(take ?off ?fb' @ p @ drop (?off + length p) ?fb') ! j
         = (if ?off \<le> j \<and> j < ?off + length p then p ! (j - ?off) else ?fb' ! j)"
    using d(2) assms(2) by (intro store_nth) simp_all
  have "(fb1 ! j = (take ?off ?fb' @ p @ drop (?off + length p) ?fb') ! j)
      \<longleftrightarrow> ?off \<le> j \<and> j < ?off + length p"
    unfolding 1 2 using assms(2) ne [of "fb ! j"] by simp
  with store_chunk_map [OF assms(1), of "\<lambda>b. b + 1"] show ?thesis by blast
qed

lemma step_writes_iff:
  assumes st: "step c v mv s = Next s'" and inv: "inv c v s" and c: "config_ok c"
    and j: "j < frame_size c"
  shows "length (filter (writes c j) (got_result s'))
     = length (filter (writes c j) (got_result s)) + (if step_writes c v mv s j then 1 else 0)"
proof -
  from inv have i: "inv_rows c s" "inv_fifo s" "inv_log s" "inv_data c v s"
    by (simp_all add: inv_def)
  have lfb: "length (fullBuffer s) = frame_size c" using i(1) by (simp add: inv_rows_def)
  have ne: "b \<noteq> b + 1" for b :: byte by simp
  have nb: "fullBuffer s ! j \<noteq> map (\<lambda>b. b + 1) (fullBuffer s) ! j"
    using j lfb ne [of "fullBuffer s ! j"] by simp
  from st show ?thesis
  proof (cases rule: step_cases)
    case (assign i w rest)
    then have "step c v mv (bumped s) = Next (bumped s')"
      by (simp add: step_def master_step_def bumped_def Let_def assign_chunk_def min_def)
    with st assign nb show ?thesis by (simp add: step_writes_def bumped_def)
  next
    case (drain i w rest)
    then have "step c v mv (bumped s) = Next (bumped s')"
      by (simp add: step_def master_step_def bumped_def Let_def assign_chunk_def)
    with st drain nb show ?thesis by (simp add: step_writes_def bumped_def)
  next
    case (store i w a k p rest fb)
    have b: "0 \<le> a \<and> 0 < k \<and> a + k \<le> cfg_height c"
      using i(2,3,1) store(3) store(5) [unfolded store(4)] by (rule pending_result_bounds)
    have w0: "0 \<le> cfg_width c" using c by (simp add: config_ok_def)
    have "RESULT a k p \<in> set (outbox (workers s ! i))" using store(4,5) by simp
    from inv_data_nth [OF i(4) store(3) this] have p: "p = chunk_bytes c v a k" .
    have lp: "length p = nat (3 * cfg_width c * k)" using w0 b by (simp add: p length_chunk_bytes)
    have a0: "0 \<le> 3 * cfg_width c * a" and k0: "0 \<le> 3 * cfg_width c * k" using w0 b by simp_all
    from store_chunk_same_byte [OF store(6), of j] j lfb
    obtain fb2 where fb2: "store_chunk c (map (\<lambda>b. b + 1) (fullBuffer s)) a k p = Some fb2"
      and eq: "fb ! j = fb2 ! j
          \<longleftrightarrow> nat (3 * cfg_width c * a) \<le> j \<and> j < nat (3 * cfg_width c * a) + length p"
      by auto
    have "step c v mv (bumped s) = Next (bumped s\<lparr>fullBuffer := fb2,
        workers := (workers s)[i := w\<lparr>outbox := rest\<rparr>],
        got_result := got_result s @ [(i, a, k)]\<rparr>)"
      using store(1-5) fb2 by (simp add: step_def master_step_def bumped_def Let_def)
    then have sw: "step_writes c v mv s j \<longleftrightarrow> fb ! j = fb2 ! j"
      using st store(7) j lfb by (simp add: step_writes_def bumped_def)
    have "(fb ! j = fb2 ! j) \<longleftrightarrow> writes c j (i, a, k)"
      unfolding eq writes_def lp prod.case using a0 k0 by linarith
    with sw store(7) show ?thesis by simp
  next
    case (finish i w rest)
    then have "step c v mv (bumped s) = Next (bumped s')"
      by (simp add: step_def master_step_def bumped_def Let_def)
    with st finish nb show ?thesis by (simp add: step_writes_def bumped_def)
  next
    case (request i buf w)
    then have "step c v mv (bumped s) = Next (bumped s')"
      by (simp add: step_def worker_step_def bumped_def Let_def)
    with st request nb show ?thesis by (simp add: step_writes_def bumped_def)
  next
    case (compute i buf w a k rest)
    then have "step c v mv (bumped s) = Next (bumped s')"
      by (simp add: step_def worker_step_def bumped_def Let_def)
    with st compute nb show ?thesis by (simp add: step_writes_def bumped_def)
  next
    case (leave i buf w rest)
    then have "step c v mv (bumped s) = Next (bumped s')"
      by (simp add: step_def worker_step_def bumped_def Let_def)
    with st leave nb show ?thesis by (simp add: step_writes_def bumped_def)
  qed
qed

lemma write_count_exec:
  assumes "config_ok c" "j < frame_size c"
  shows "exec c v sch s = Next s' \<Longrightarrow> inv c v s \<Longrightarrow>
     length (filter (writes c j) (got_result s'))
     = length (filter (writes c j) (got_result s)) + write_count c v sch s j"
proof (induction sch arbitrary: s)
  case Nil
  then show ?case by simp
next
  case (Cons mv sch)
  from Cons.prems(1) obtain s1 where s1: "step c v mv s = Next s1" "exec c v sch s1 = Next s'"
    by (auto split: outcome.splits)
  from Cons.IH [OF s1(2) inv_step [OF assms(1) Cons.prems(2) s1(1)]]
    step_writes_iff [OF s1(1) Cons.prems(2) assms]
  show ?case by (simp add: s1(1))
qed

lemma store_chunk_writes:
  assumes "store_chunk c fb a k p = Some fb'"
  shows "length fb' = length fb"
    and "\<forall>j < length fb. fb' ! j
           = (if nat (3 * cfg_width c * a) \<le> j \<and> j < nat (3 * cfg_width c * a) + length p
              then p ! (j - nat (3 * cfg_width c * a)) else fb ! j)"
proof -
  note d = store_chunk_SomeD [OF assms]
  show "length fb' = length fb" using assms by (rule store_chunk_length)
  show "\<forall>j < length fb. fb' ! j
           = (if nat (3 * cfg_width c * a) \<le> j \<and> j < nat (3 * cfg_width c * a) + length p
              then p ! (j - nat (3 * cfg_width c * a)) else fb ! j)"
    unfolding d(3) using d(2) by (intro allI impI store_nth)
qed

lemma frame_run_exists:
  assumes "config_ok c" "1 \<le> world_size" "length fb = frame_size c"
  shows "\<exists>sch s. exec c v sch (frame_init world_size fb) = Next s \<and> frame_done s"
  using completion [OF assms(1) inv_init [OF assms]] .


text \<open>A full run of one frame with one worker on a raster of one pixel.\<close>

lemma compute_rows_1x1: "compute_rows 1 0 0 0 1 1 1 1 [x, y, z] = [0, 0, 0]"
  by (simp add: compute_rows_def map_pixel_to_complex_def signed_divide_int_def
      mandelbrot_origin iteration_to_color_black put_rgb_def)

lemma exec_1x1_assigned:
  "exec \<lparr>cfg_width = 1, cfg_height = 1, cfg_max_iter = 1\<rparr>
        \<lparr>view_zoom = 1, view_centerX = 0, view_centerY = 0\<rparr>
        [Worker 0 [], Master 0, Worker 0 [7, 7, 7]] (frame_init 2 [7, 7, 7])
   = Next \<lparr>nextRow = 1, activeWorkers = 1, fullBuffer = [7, 7, 7],
           workers = [\<lparr>pc = W_Request, outbox = [RESULT 0 1 [0, 0, 0]], inbox = []\<rparr>],
           sent_assign = [(0, 0, 1)], got_result = []\<rparr>"
  by (simp add: step_def worker_step_def master_step_def frame_init_def assign_chunk_def
      CHUNK_SIZE_def compute_rows_1x1 numeral_2_eq_2)

lemma exec_1x1_done:
  "exec \<lparr>cfg_width = 1, cfg_height = 1, cfg_max_iter = 1\<rparr>
        \<lparr>view_zoom = 1, view_centerX = 0, view_centerY = 0\<rparr>
        [Worker 0 [], Master 0, Worker 0 [7, 7, 7], Master 0, Worker 0 [], Master 0,
         Worker 0 [], Master 0] (frame_init 2 [7, 7, 7])
   = Next \<lparr>nextRow = 1, activeWorkers = 0, fullBuffer = [0, 0, 0],
           workers = [\<lparr>pc = W_Left, outbox = [], inbox = []\<rparr>],
           sent_assign = [(0, 0, 1)], got_result = [(0, 0, 1)]\<rparr>"
  by (simp add: step_def worker_step_def master_step_def frame_init_def assign_chunk_def
      CHUNK_SIZE_def compute_rows_1x1 numeral_2_eq_2 store_chunk_def)

lemma config_ok_1x1: "config_ok \<lparr>cfg_width = 1, cfg_height = 1, cfg_max_iter = 1\<rparr>"
  by (simp add: config_ok_def INT_MAX_def)

lemma render_frame_1x1:
  "render_frame \<lparr>cfg_width = 1, cfg_height = 1, cfg_max_iter = 1\<rparr>
     \<lparr>view_zoom = 1, view_centerX = 0, view_centerY = 0\<rparr> = [0, 0, 0]"
  by (simp add: render_frame_def frame_size_def compute_rows_1x1 numeral_3_eq_3)


lemma exec_1x1_two_workers:
  "exec \<lparr>cfg_width = 1, cfg_height = 1, cfg_max_iter = 1\<rparr>
        \<lparr>view_zoom = 1, view_centerX = 0, view_centerY = 0\<rparr>
        [Worker 1 [], Master 1, Worker 1 [9, 9, 9], Worker 0 [], Master 0, Master 1,
         Worker 0 [], Master 0, Worker 1 [], Master 1, Worker 1 [], Master 1]
        (frame_init 3 [5, 5, 5])
   = Next \<lparr>nextRow = 1, activeWorkers = 0, fullBuffer = [0, 0, 0],
           workers = [\<lparr>pc = W_Left, outbox = [], inbox = []\<rparr>,
                      \<lparr>pc = W_Left, outbox = [], inbox = []\<rparr>],
           sent_assign = [(1, 0, 1)], got_result = [(1, 0, 1)]\<rparr>"
  by (simp add: step_def worker_step_def master_step_def frame_init_def assign_chunk_def
      CHUNK_SIZE_def compute_rows_1x1 numeral_3_eq_3 numeral_2_eq_2 store_chunk_def)

text \<open>
  The same run on the pixel at \<open>(2, 0)\<close> with \<open>maxIter = 4\<close>: the kernel returns 1, the hue is 90
  and the pixel is \<open>(127, 255, 0)\<close>.
\<close>

lemma iteration_to_color_1_4: "iteration_to_color 1 4 = (127, 255, 0)"
  by (simp add: iteration_to_color_def Let_def c_fmod_def c_trunc_def uchar_of_double_def)

lemma compute_rows_1x1_edge: "compute_rows 1 2 0 0 1 1 1 4 [x, y, z] = [127, 255, 0]"
  by (simp add: compute_rows_def map_pixel_to_complex_def signed_divide_int_def
      mandelbrot_2_0 iteration_to_color_1_4 put_rgb_def)

lemma config_ok_1x1_edge: "config_ok \<lparr>cfg_width = 1, cfg_height = 1, cfg_max_iter = 4\<rparr>"
  by (simp add: config_ok_def INT_MAX_def)

lemma render_frame_1x1_edge:
  "render_frame \<lparr>cfg_width = 1, cfg_height = 1, cfg_max_iter = 4\<rparr>
     \<lparr>view_zoom = 1, view_centerX = 2, view_centerY = 0\<rparr> = [127, 255, 0]"
  by (simp add: render_frame_def frame_size_def compute_rows_1x1_edge numeral_3_eq_3)

lemma exec_1x1_edge_done:
  "exec \<lparr>cfg_width = 1, cfg_height = 1, cfg_max_iter = 4\<rparr>
        \<lparr>view_zoom = 1, view_centerX = 2, view_centerY = 0\<rparr>
        [Worker 0 [], Master 0, Worker 0 [7, 7, 7], Master 0, Worker 0 [], Master 0,
         Worker 0 [], Master 0] (frame_init 2 [7, 7, 7])
   = Next \<lparr>nextRow = 1, activeWorkers = 0, fullBuffer = [127, 255, 0],
           workers = [\<lparr>pc = W_Left, outbox = [], inbox = []\<rparr>],
           sent_assign = [(0, 0, 1)], got_result = [(0, 0, 1)]\<rparr>"
  by (simp add: step_def worker_step_def master_step_def frame_init_def assign_chunk_def
      CHUNK_SIZE_def compute_rows_1x1_edge numeral_2_eq_2 store_chunk_def)

text \<open>
  Claim C10. In every state a frame can reach, for every worker the chunks the master assigned
  to it are, in order, the headers of the results the master has received from it, then the
  headers of its results on their way, then the assignments on their way to it; a worker that
  answers \<open>ASSIGN (startY, chunkSize)\<close> sends a result with that header and the bytes of those
  rows. Every assigned chunk has \<open>0 \<le> startY\<close>, \<open>0 < chunkSize\<close> and
  \<open>startY + chunkSize \<le> height\<close>, so for every result on its way the \<open>3 * width * chunkSize\<close>
  bytes copied to offset \<open>3 * width * startY\<close> lie inside the frame buffer of
  \<open>3 * width * height\<close> bytes, and no move of the master faults.
\<close>

theorem result_area_in_bounds:
  assumes "config_ok c" and "1 \<le> world_size" and "length fb = frame_size c"
    and "exec c v sch (frame_init world_size fb) = Next s"
  shows "(\<forall>i < length (workers s).
           chunks_of i (sent_assign s)
             = chunks_of i (got_result s) @ result_hdrs (outbox (workers s ! i))
                 @ assign_hdrs (inbox (workers s ! i)))
       \<and> (\<forall>i buf s' a k rest.
           worker_step c v i buf s = Next s' \<and> inbox (workers s ! i) = ASSIGN a k # rest
           \<longrightarrow> outbox (workers s' ! i) = outbox (workers s ! i) @ [RESULT a k (chunk_bytes c v a k)])
       \<and> (\<forall>e \<in> set (sent_assign s). case e of (i, a, k) \<Rightarrow> 0 \<le> a \<and> 0 < k \<and> a + k \<le> cfg_height c)
       \<and> (\<forall>i < length (workers s). \<forall>a k p. RESULT a k p \<in> set (outbox (workers s ! i))
           \<longrightarrow> 0 \<le> a \<and> 0 < k \<and> a + k \<le> cfg_height c
               \<and> int (length p) = 3 * cfg_width c * k
               \<and> 0 \<le> 3 * cfg_width c * a
               \<and> 3 * cfg_width c * a + 3 * cfg_width c * k \<le> int (length (fullBuffer s)))
       \<and> length (fullBuffer s) = frame_size c
       \<and> (\<forall>mv. step c v mv s \<noteq> Fault)"
proof -
  have inv: "inv c v s" using assms by (rule exec_init_inv)
  then have "length (fullBuffer s) = frame_size c" by (simp add: inv_def inv_rows_def)
  with reachable_safe [OF assms(1) inv] show ?thesis by blast
qed

theorem result_area_in_bounds_witness:
  "config_ok \<lparr>cfg_width = 1, cfg_height = 1, cfg_max_iter = 1\<rparr>
   \<and> exec \<lparr>cfg_width = 1, cfg_height = 1, cfg_max_iter = 1\<rparr>
        \<lparr>view_zoom = 1, view_centerX = 0, view_centerY = 0\<rparr>
        [Worker 0 [], Master 0, Worker 0 [7, 7, 7]] (frame_init 2 [7, 7, 7])
      = Next \<lparr>nextRow = 1, activeWorkers = 1, fullBuffer = [7, 7, 7],
           workers = [\<lparr>pc = W_Request, outbox = [RESULT 0 1 [0, 0, 0]], inbox = []\<rparr>],
           sent_assign = [(0, 0, 1)], got_result = []\<rparr>
   \<and> step \<lparr>cfg_width = 1, cfg_height = 1, cfg_max_iter = 1\<rparr>
        \<lparr>view_zoom = 1, view_centerX = 0, view_centerY = 0\<rparr> (Master 0)
        \<lparr>nextRow = 1, activeWorkers = 1, fullBuffer = [7, 7, 7],
           workers = [\<lparr>pc = W_Request, outbox = [RESULT 0 1 [0, 0, 0]], inbox = []\<rparr>],
           sent_assign = [(0, 0, 1)], got_result = []\<rparr> \<noteq> Fault"
proof -
  have h2: "(1::nat) \<le> 2" by simp
  have h3: "length [7, 7, 7 :: byte] = frame_size \<lparr>cfg_width = 1, cfg_height = 1, cfg_max_iter = 1\<rparr>"
    by (simp add: frame_size_def)
  from result_area_in_bounds [OF config_ok_1x1 h2 h3 exec_1x1_assigned] config_ok_1x1
    exec_1x1_assigned
  show ?thesis by blast
qed

text \<open>
  Claim C2. For every view and every number \<open>nworkers \<ge> 1\<close> of workers the dispatch loop has a
  run to its end, and in every such run: every row of \<open>[0, height)\<close> lies in exactly one
  assigned chunk, the master answering a request with
  \<open>(nextRow, min CHUNK_SIZE (height - nextRow))\<close> and moving \<open>nextRow\<close> past the chunk, or with the
  terminator once \<open>nextRow \<ge> height\<close>; the results received are the chunks assigned, each once;
  every byte of the frame buffer of \<open>3 * width * height\<close> bytes lies in the area of exactly one
  result header and is written by exactly one move of the run; and the frame buffer at the end
  is the rendered frame. The receive of line 231 writes the pixel data of its message from byte
  \<open>3 * width * resultStartY\<close> on and leaves every other byte as it was.
\<close>

theorem dispatch_covers_rows:
  assumes "config_ok c" and "1 \<le> nworkers" and "length fb = frame_size c"
  shows "(\<exists>sch s. exec c v sch (frame_init (Suc nworkers) fb) = Next s \<and> frame_done s)
       \<and> (\<forall>sch s. exec c v sch (frame_init (Suc nworkers) fb) = Next s \<and> frame_done s \<longrightarrow>
            (\<forall>y. 0 \<le> y \<and> y < cfg_height c \<longrightarrow> length (filter (covers y) (sent_assign s)) = 1)
            \<and> mset (got_result s) = mset (sent_assign s)
            \<and> (\<forall>j < frame_size c. length (filter (writes c j) (got_result s)) = 1)
            \<and> (\<forall>j < frame_size c. write_count c v sch (frame_init (Suc nworkers) fb) j = 1)
            \<and> length (fullBuffer s) = frame_size c
            \<and> fullBuffer s = render_frame c v)
       \<and> (\<forall>r. assign_chunk c r =
             (if cfg_height c \<le> r then (TERMINATOR, r)
              else (ASSIGN r (min CHUNK_SIZE (cfg_height c - r)),
                    r + min CHUNK_SIZE (cfg_height c - r))))
       \<and> (\<forall>fb0 a k p fb'. store_chunk c fb0 a k p = Some fb' \<longrightarrow>
             length fb' = length fb0
             \<and> (\<forall>j < length fb0. fb' ! j
                  = (if nat (3 * cfg_width c * a) \<le> j \<and> j < nat (3 * cfg_width c * a) + length p
                     then p ! (j - nat (3 * cfg_width c * a)) else fb0 ! j)))"
proof -
  have 1: "1 \<le> Suc nworkers" by simp
  have ex: "\<exists>sch s. exec c v sch (frame_init (Suc nworkers) fb) = Next s \<and> frame_done s"
    using assms(1) 1 assms(3) by (rule frame_run_exists)
  have run: "(\<forall>y. 0 \<le> y \<and> y < cfg_height c \<longrightarrow> length (filter (covers y) (sent_assign s)) = 1)
            \<and> mset (got_result s) = mset (sent_assign s)
            \<and> (\<forall>j < frame_size c. length (filter (writes c j) (got_result s)) = 1)
            \<and> (\<forall>j < frame_size c. write_count c v sch (frame_init (Suc nworkers) fb) j = 1)
            \<and> length (fullBuffer s) = frame_size c
            \<and> fullBuffer s = render_frame c v"
    if e: "exec c v sch (frame_init (Suc nworkers) fb) = Next s" and d: "frame_done s" for sch s
  proof -
    have inv0: "inv c v (frame_init (Suc nworkers) fb)" using assms(1) 1 assms(3) by (rule inv_init)
    have inv: "inv c v s" using assms(1) 1 assms(3) e by (rule exec_init_inv)
    have "length (workers s) = nworkers"
      using exec_workers_length [OF e] by (simp add: frame_init_def)
    with assms(2) have ws: "workers s \<noteq> []" by auto
    note fin = frame_final [OF assms(1) inv ws d]
    have len: "length (fullBuffer s) = frame_size c" using inv by (simp add: inv_def inv_rows_def)
    have tr: "\<forall>j < frame_size c. write_count c v sch (frame_init (Suc nworkers) fb) j = 1"
    proof (intro allI impI)
      fix j assume j: "j < frame_size c"
      have g0: "got_result (frame_init (Suc nworkers) fb) = []" by (simp add: frame_init_def)
      have "length (filter (writes c j) (got_result s))
          = write_count c v sch (frame_init (Suc nworkers) fb) j"
        using write_count_exec [OF assms(1) j e inv0] by (simp only: g0 filter.simps list.size add_0)
      moreover from fin(5) j have "length (filter (writes c j) (got_result s)) = 1" by blast
      ultimately show "write_count c v sch (frame_init (Suc nworkers) fb) j = 1"
        by linarith
    qed
    from fin(3,4,5,6) tr len show ?thesis by blast
  qed
  have st: "\<forall>fb0 a k p fb'. store_chunk c fb0 a k p = Some fb' \<longrightarrow>
             length fb' = length fb0
             \<and> (\<forall>j < length fb0. fb' ! j
                  = (if nat (3 * cfg_width c * a) \<le> j \<and> j < nat (3 * cfg_width c * a) + length p
                     then p ! (j - nat (3 * cfg_width c * a)) else fb0 ! j))"
    using store_chunk_writes by blast
  from ex run assign_chunk_eq st show ?thesis by blast
qed


theorem dispatch_covers_rows_witness:
  "config_ok \<lparr>cfg_width = 1, cfg_height = 1, cfg_max_iter = 4\<rparr>
   \<and> exec \<lparr>cfg_width = 1, cfg_height = 1, cfg_max_iter = 4\<rparr>
        \<lparr>view_zoom = 1, view_centerX = 2, view_centerY = 0\<rparr>
        [Worker 0 [], Master 0, Worker 0 [7, 7, 7], Master 0, Worker 0 [], Master 0,
         Worker 0 [], Master 0] (frame_init (Suc 1) [7, 7, 7])
      = Next \<lparr>nextRow = 1, activeWorkers = 0, fullBuffer = [127, 255, 0],
           workers = [\<lparr>pc = W_Left, outbox = [], inbox = []\<rparr>],
           sent_assign = [(0, 0, 1)], got_result = [(0, 0, 1)]\<rparr>
   \<and> length (filter (covers 0) [(0, 0, 1)]) = 1
   \<and> length (filter (writes \<lparr>cfg_width = 1, cfg_height = 1, cfg_max_iter = 4\<rparr> 2) [(0, 0, 1)]) = 1
   \<and> write_count \<lparr>cfg_width = 1, cfg_height = 1, cfg_max_iter = 4\<rparr>
        \<lparr>view_zoom = 1, view_centerX = 2, view_centerY = 0\<rparr>
        [Worker 0 [], Master 0, Worker 0 [7, 7, 7], Master 0, Worker 0 [], Master 0,
         Worker 0 [], Master 0] (frame_init (Suc 1) [7, 7, 7]) 2 = 1
   \<and> render_frame \<lparr>cfg_width = 1, cfg_height = 1, cfg_max_iter = 4\<rparr>
        \<lparr>view_zoom = 1, view_centerX = 2, view_centerY = 0\<rparr> = [127, 255, 0]
   \<and> store_chunk \<lparr>cfg_width = 1, cfg_height = 1, cfg_max_iter = 4\<rparr> [7, 7, 7] 0 1 [127, 255, 0]
      = Some [127, 255, 0]"
proof -
  let ?c = "\<lparr>cfg_width = 1, cfg_height = 1, cfg_max_iter = 4\<rparr>"
  let ?v = "\<lparr>view_zoom = 1, view_centerX = 2, view_centerY = 0\<rparr>"
  let ?sch = "[Worker 0 [], Master 0, Worker 0 [7, 7, 7], Master 0, Worker 0 [], Master 0,
         Worker 0 [], Master 0]"
  let ?s = "\<lparr>nextRow = 1, activeWorkers = 0, fullBuffer = [127, 255, 0],
           workers = [\<lparr>pc = W_Left, outbox = [], inbox = []\<rparr>],
           sent_assign = [(0, 0, 1)], got_result = [(0, 0, 1)]\<rparr>"
  have h2: "(1::nat) \<le> 1" by simp
  have h3: "length [7, 7, 7 :: byte] = frame_size ?c" by (simp add: frame_size_def)
  have h4: "exec ?c ?v ?sch (frame_init (Suc 1) [7, 7, 7]) = Next ?s"
    using exec_1x1_edge_done by (simp add: numeral_2_eq_2)
  have h5: "frame_done ?s" by (simp add: frame_done_def)
  have st: "store_chunk ?c [7, 7, 7] 0 1 [127, 255, 0] = Some [127, 255, 0]"
    by (simp add: store_chunk_def)
  have j: "2 < frame_size ?c" "(0::int) \<le> 0 \<and> (0::int) < cfg_height ?c" by (simp_all add: frame_size_def)
  from dispatch_covers_rows [OF config_ok_1x1_edge h2 h3, of ?v] h4 h5 j
  have r: "length (filter (covers 0) (sent_assign ?s)) = 1
      \<and> length (filter (writes ?c 2) (got_result ?s)) = 1
      \<and> write_count ?c ?v ?sch (frame_init (Suc 1) [7, 7, 7]) 2 = 1
      \<and> fullBuffer ?s = render_frame ?c ?v"
    by blast
  from r have r1: "length (filter (covers 0) [(0, 0, 1)]) = 1" by simp
  from r have r2: "length (filter (writes ?c 2) [(0, 0, 1)]) = 1" by simp
  from r have r3: "write_count ?c ?v ?sch (frame_init (Suc 1) [7, 7, 7]) 2 = 1" by blast
  from r have r4: "render_frame ?c ?v = [127, 255, 0]" by simp
  from config_ok_1x1_edge h4 r1 r2 r3 r4 st show ?thesis by blast
qed


text \<open>
  Claim C1. For any two numbers \<open>n1, n2 \<ge> 1\<close> of workers, any contents of the frame buffer at the
  start and any two runs of the dispatch loop to its end, the frame buffers at the end are the
  same: both are the frame the row-chunk renderer gives for the view and the configuration,
  whatever the schedule, because the master copies each result to the byte offset
  \<open>3 * width * startY\<close> taken from the header of that result.
\<close>

theorem frame_deterministic:
  assumes "config_ok c" and "1 \<le> n1" and "1 \<le> n2"
    and "length fb1 = frame_size c" and "length fb2 = frame_size c"
    and "exec c v sch1 (frame_init (Suc n1) fb1) = Next s1" and "frame_done s1"
    and "exec c v sch2 (frame_init (Suc n2) fb2) = Next s2" and "frame_done s2"
  shows "fullBuffer s1 = fullBuffer s2
       \<and> fullBuffer s1 = render_frame c v
       \<and> (\<forall>fb a k p fb'. store_chunk c fb a k p = Some fb'
            \<longrightarrow> fb' = take (nat (3 * cfg_width c * a)) fb @ p
                        @ drop (nat (3 * cfg_width c * a) + length p) fb)"
proof -
  have "2 \<le> Suc n1" "2 \<le> Suc n2" using assms(2,3) by simp_all
  from dispatch_frame [OF assms(1) this(1) assms(4,6,7)]
    dispatch_frame [OF assms(1) this(2) assms(5,8,9)] store_chunk_SomeD(3)
  show ?thesis by simp
qed

theorem frame_deterministic_witness:
  "config_ok \<lparr>cfg_width = 1, cfg_height = 1, cfg_max_iter = 1\<rparr>
   \<and> exec \<lparr>cfg_width = 1, cfg_height = 1, cfg_max_iter = 1\<rparr>
        \<lparr>view_zoom = 1, view_centerX = 0, view_centerY = 0\<rparr>
        [Worker 0 [], Master 0, Worker 0 [7, 7, 7], Master 0, Worker 0 [], Master 0,
         Worker 0 [], Master 0] (frame_init (Suc 1) [7, 7, 7])
      = Next \<lparr>nextRow = 1, activeWorkers = 0, fullBuffer = [0, 0, 0],
           workers = [\<lparr>pc = W_Left, outbox = [], inbox = []\<rparr>],
           sent_assign = [(0, 0, 1)], got_result = [(0, 0, 1)]\<rparr>
   \<and> exec \<lparr>cfg_width = 1, cfg_height = 1, cfg_max_iter = 1\<rparr>
        \<lparr>view_zoom = 1, view_centerX = 0, view_centerY = 0\<rparr>
        [Worker 1 [], Master 1, Worker 1 [9, 9, 9], Worker 0 [], Master 0, Master 1,
         Worker 0 [], Master 0, Worker 1 [], Master 1, Worker 1 [], Master 1]
        (frame_init (Suc 2) [5, 5, 5])
      = Next \<lparr>nextRow = 1, activeWorkers = 0, fullBuffer = [0, 0, 0],
           workers = [\<lparr>pc = W_Left, outbox = [], inbox = []\<rparr>,
                      \<lparr>pc = W_Left, outbox = [], inbox = []\<rparr>],
           sent_assign = [(1, 0, 1)], got_result = [(1, 0, 1)]\<rparr>
   \<and> render_frame \<lparr>cfg_width = 1, cfg_height = 1, cfg_max_iter = 1\<rparr>
        \<lparr>view_zoom = 1, view_centerX = 0, view_centerY = 0\<rparr> = [0, 0, 0]"
proof -
  let ?c = "\<lparr>cfg_width = 1, cfg_height = 1, cfg_max_iter = 1\<rparr>"
  let ?v = "\<lparr>view_zoom = 1, view_centerX = 0, view_centerY = 0\<rparr>"
  let ?s1 = "\<lparr>nextRow = 1, activeWorkers = 0, fullBuffer = [0, 0, 0],
           workers = [\<lparr>pc = W_Left, outbox = [], inbox = []\<rparr>],
           sent_assign = [(0, 0, 1)], got_result = [(0, 0, 1)]\<rparr>"
  let ?s2 = "\<lparr>nextRow = 1, activeWorkers = 0, fullBuffer = [0, 0, 0],
           workers = [\<lparr>pc = W_Left, outbox = [], inbox = []\<rparr>,
                      \<lparr>pc = W_Left, outbox = [], inbox = []\<rparr>],
           sent_assign = [(1, 0, 1)], got_result = [(1, 0, 1)]\<rparr>"
  have n: "(1::nat) \<le> 1" "(1::nat) \<le> 2" by simp_all
  have l: "length [7, 7, 7 :: byte] = frame_size ?c" "length [5, 5, 5 :: byte] = frame_size ?c"
    by (simp_all add: frame_size_def)
  have e1: "exec ?c ?v
        [Worker 0 [], Master 0, Worker 0 [7, 7, 7], Master 0, Worker 0 [], Master 0,
         Worker 0 [], Master 0] (frame_init (Suc 1) [7, 7, 7]) = Next ?s1"
    using exec_1x1_done by (simp add: numeral_2_eq_2)
  have e2: "exec ?c ?v
        [Worker 1 [], Master 1, Worker 1 [9, 9, 9], Worker 0 [], Master 0, Master 1,
         Worker 0 [], Master 0, Worker 1 [], Master 1, Worker 1 [], Master 1]
        (frame_init (Suc 2) [5, 5, 5]) = Next ?s2"
    using exec_1x1_two_workers by (simp add: numeral_3_eq_3)
  have d: "frame_done ?s1" "frame_done ?s2" by (simp_all add: frame_done_def)
  from frame_deterministic [OF config_ok_1x1 n l e1 d(1) e2 d(2)] config_ok_1x1 e1 e2
  show ?thesis by simp
qed

text \<open>
  Claim C4 describes a run with a single process. In the program such a run starts each frame
  with \<open>activeWorkers = 0\<close>: the dispatch loop is left at once, no move is possible and no pixel
  is computed, and the master writes out the frame buffer as it was. On a raster of one pixel
  whose frame is \<open>(0, 0, 0)\<close>, a buffer that held \<open>(255, 255, 255)\<close> is written out unchanged.
\<close>

theorem single_process_frame:
  "frame_done (frame_init 1 [255, 255, 255])
   \<and> fullBuffer (frame_init 1 [255, 255, 255]) = [255, 255, 255]
   \<and> step \<lparr>cfg_width = 1, cfg_height = 1, cfg_max_iter = 1\<rparr>
        \<lparr>view_zoom = 1, view_centerX = 0, view_centerY = 0\<rparr> mv
        (frame_init 1 [255, 255, 255]) = Blocked
   \<and> render_frame \<lparr>cfg_width = 1, cfg_height = 1, cfg_max_iter = 1\<rparr>
        \<lparr>view_zoom = 1, view_centerX = 0, view_centerY = 0\<rparr> = [0, 0, 0]
   \<and> main_master \<lparr>cfg_width = 1, cfg_height = 1, cfg_max_iter = 1\<rparr> 1
        [Line 1 0 0] [[]] [255, 255, 255]
      = Exit 0 [[255, 255, 255]] False [1, - 1]"
  by (cases mv)
    (simp_all add: frame_done_def frame_init_def step_def master_step_def worker_step_def
      render_frame_1x1)

subsection \<open>The run over the input stream\<close>

lemma main_master_frame:
  assumes "0 < zoom"
    and "exec c \<lparr>view_zoom = zoom, view_centerX = centerX, view_centerY = centerY\<rparr> sch
           (frame_init world_size fb) = Next s"
    and "frame_done s"
  shows "main_master c world_size (Line zoom centerX centerY # rest) (sch # scheds) fb
         = (case main_master c world_size rest scheds (fullBuffer s) of
              Exit code frames diagnostic zooms \<Rightarrow>
                Exit code (fullBuffer s # frames) diagnostic (zoom # zooms)
            | Stuck \<Rightarrow> Stuck
            | Crash \<Rightarrow> Crash)"
  using assms by simp

lemma main_master_ExitD:
  assumes "0 < zoom"
    and "main_master c world_size (Line zoom centerX centerY # rest) scheds fb
           = Exit code frames diagnostic zooms"
  obtains sch scheds' s frames' zooms' where
    "scheds = sch # scheds'"
    "exec c \<lparr>view_zoom = zoom, view_centerX = centerX, view_centerY = centerY\<rparr> sch
           (frame_init world_size fb) = Next s"
    "frame_done s"
    "main_master c world_size rest scheds' (fullBuffer s) = Exit code frames' diagnostic zooms'"
    "frames = fullBuffer s # frames'" "zooms = zoom # zooms'"
  using assms
  by (auto split: list.splits outcome.splits if_splits run_result.splits)

lemma main_master_exit:
  assumes c: "config_ok c" and ws: "1 \<le> world_size"
  shows "length fb = frame_size c \<Longrightarrow>
         main_master c world_size lines scheds fb = Exit code frames diagnostic zooms \<Longrightarrow>
         code = 0 \<and> length frames = length (takeWhile renders lines)
         \<and> (diagnostic \<longleftrightarrow> (\<exists>rest. dropWhile renders lines = Malformed # rest))
         \<and> main_worker zooms = Some 0 \<and> length zooms = Suc (length frames)
         \<and> (2 \<le> world_size \<longrightarrow> frames = map (\<lambda>l. render_frame c (view_of l)) (takeWhile renders lines))"
proof (induction lines arbitrary: fb scheds frames zooms)
  case Nil
  then show ?case by auto
next
  case (Cons l lines)
  show ?case
  proof (cases l)
    case Malformed
    with Cons.prems(2) show ?thesis by auto
  next
    case (Line zoom centerX centerY)
    show ?thesis
    proof (cases "0 < zoom")
      case False
      with Cons.prems(2) Line show ?thesis by auto
    next
      case True
      let ?v = "\<lparr>view_zoom = zoom, view_centerX = centerX, view_centerY = centerY\<rparr>"
      from Cons.prems(2) [unfolded Line] obtain sch scheds' s frames' zooms' where
        r: "exec c ?v sch (frame_init world_size fb) = Next s" "frame_done s"
        "main_master c world_size lines scheds' (fullBuffer s) = Exit code frames' diagnostic zooms'"
        "frames = fullBuffer s # frames'" "zooms = zoom # zooms'"
        by (rule main_master_ExitD [OF True])
      have inv: "inv c ?v s" using c ws Cons.prems(1) r(1) by (rule exec_init_inv)
      then have len: "length (fullBuffer s) = frame_size c" by (simp add: inv_def inv_rows_def)
      note ih = Cons.IH [OF len r(3)]
      have fr: "fullBuffer s = render_frame c ?v" if "2 \<le> world_size"
        using c that Cons.prems(1) r(1,2) by (rule dispatch_frame)
      show ?thesis using ih True fr by (simp add: Line r(4,5))
    qed
  qed
qed

lemma main_master_no_crash:
  assumes c: "config_ok c" and ws: "1 \<le> world_size"
  shows "length fb = frame_size c \<Longrightarrow> main_master c world_size lines scheds fb \<noteq> Crash"
proof (induction lines arbitrary: fb scheds)
  case Nil
  then show ?case by simp
next
  case (Cons l lines)
  show ?case
  proof (cases l)
    case Malformed
    then show ?thesis by simp
  next
    case (Line zoom centerX centerY)
    let ?v = "\<lparr>view_zoom = zoom, view_centerX = centerX, view_centerY = centerY\<rparr>"
    have nf: "exec c ?v sch (frame_init world_size fb) \<noteq> Fault" for sch
      using c inv_init [OF c ws Cons.prems] by (rule exec_no_fault)
    have rec: "main_master c world_size lines scheds' (fullBuffer s) \<noteq> Crash"
      if "exec c ?v sch (frame_init world_size fb) = Next s" for sch s scheds'
    proof -
      have "inv c ?v s" using c ws Cons.prems that by (rule exec_init_inv)
      then have "length (fullBuffer s) = frame_size c" by (simp add: inv_def inv_rows_def)
      then show ?thesis by (rule Cons.IH)
    qed
    show ?thesis
      using nf rec by (auto simp: Line split: list.splits outcome.splits run_result.splits)
  qed
qed

lemma main_master_completes:
  assumes c: "config_ok c" and ws: "1 \<le> world_size"
  shows "length fb = frame_size c \<Longrightarrow>
         \<exists>scheds frames diagnostic zooms.
           main_master c world_size lines scheds fb = Exit 0 frames diagnostic zooms"
proof (induction lines arbitrary: fb)
  case Nil
  have "main_master c world_size [] [] fb = Exit 0 [] False [- 1]" by simp
  then show ?case by blast
next
  case (Cons l lines)
  show ?case
  proof (cases l)
    case Malformed
    have "main_master c world_size (Malformed # lines) [] fb = Exit 0 [] True [- 1]" by simp
    then show ?thesis unfolding Malformed by blast
  next
    case (Line zoom centerX centerY)
    show ?thesis
    proof (cases "0 < zoom")
      case False
      then have "main_master c world_size (Line zoom centerX centerY # lines) [] fb
          = Exit 0 [] False [zoom]" by simp
      then show ?thesis unfolding Line by blast
    next
      case True
      let ?v = "\<lparr>view_zoom = zoom, view_centerX = centerX, view_centerY = centerY\<rparr>"
      from completion [OF c inv_init [OF c ws Cons.prems], of ?v] obtain sch s where
        r: "exec c ?v sch (frame_init world_size fb) = Next s" "frame_done s" by blast
      have "inv c ?v s" using c ws Cons.prems r(1) by (rule exec_init_inv)
      then have "length (fullBuffer s) = frame_size c" by (simp add: inv_def inv_rows_def)
      from Cons.IH [OF this] obtain scheds frames diagnostic zooms where
        "main_master c world_size lines scheds (fullBuffer s) = Exit 0 frames diagnostic zooms"
        by blast
      with main_master_frame [OF True r, of lines scheds]
      have "main_master c world_size (Line zoom centerX centerY # lines) (sch # scheds) fb
          = Exit 0 (fullBuffer s # frames) diagnostic (zoom # zooms)" by simp
      then show ?thesis unfolding Line by blast
    qed
  qed
qed

text \<open>
  Claim C8. For every input stream (a finite list of lines, the end of the list being the end
  of the stream) the run never faults, and when the master ends it returns 0, having rendered
  one frame for each line before the first line that is malformed or has \<open>zoom \<le> 0\<close>, or before
  the end of the stream, and none after; the diagnostic is printed exactly when that first
  line is malformed; each worker, receiving the values of \<open>zoom\<close> the master broadcast, leaves
  its loop and returns 0. Each frame can be run to its end, in at most
  \<open>4 * height + 4 * (world_size - 1)\<close> moves, so that the run ends.
\<close>

theorem main_loop_terminates:
  assumes "config_ok c" and "1 \<le> world_size" and "length fb = frame_size c"
  shows "main_master c world_size lines scheds fb \<noteq> Crash
       \<and> (\<forall>code frames diagnostic zooms.
            main_master c world_size lines scheds fb = Exit code frames diagnostic zooms \<longrightarrow>
              code = 0 \<and> length frames = length (takeWhile renders lines)
              \<and> (diagnostic \<longleftrightarrow> (\<exists>rest. dropWhile renders lines = Malformed # rest))
              \<and> main_worker zooms = Some 0 \<and> length zooms = Suc (length frames)
              \<and> (2 \<le> world_size \<longrightarrow>
                    frames = map (\<lambda>l. render_frame c (view_of l)) (takeWhile renders lines)))
       \<and> (\<exists>scheds' frames diagnostic zooms.
            main_master c world_size lines scheds' fb = Exit 0 frames diagnostic zooms)
       \<and> (\<forall>v sch s. exec c v sch (frame_init world_size fb) = Next s \<longrightarrow>
            length sch \<le> 4 * nat (cfg_height c) + 4 * (world_size - 1)
            \<and> (\<not> frame_done s \<longrightarrow> (\<exists>mv s'. step c v mv s = Next s')))"
proof -
  have bound: "length sch \<le> 4 * nat (cfg_height c) + 4 * (world_size - 1)
            \<and> (\<not> frame_done s \<longrightarrow> (\<exists>mv s'. step c v mv s = Next s'))"
    if e: "exec c v sch (frame_init world_size fb) = Next s" for v sch s
  proof -
    have "sum_list (map weight (replicate n \<lparr>pc = W_Request, outbox = [], inbox = []\<rparr>)) = 4 * n" for n
      by (induction n) (simp_all add: weight_def)
    then have "potential c (frame_init world_size fb) = 4 * nat (cfg_height c) + 4 * (world_size - 1)"
      by (simp add: potential_def frame_init_def)
    with exec_length_bound [OF e] have "length sch \<le> 4 * nat (cfg_height c) + 4 * (world_size - 1)"
      by simp
    moreover have "inv c v s" using assms e by (rule exec_init_inv)
    then have "\<not> frame_done s \<longrightarrow> (\<exists>mv s'. step c v mv s = Next s')"
      using progress [OF assms(1)] by blast
    ultimately show ?thesis by simp
  qed
  from main_master_no_crash [OF assms] main_master_exit [OF assms]
    main_master_completes [OF assms] bound
  show ?thesis by blast
qed

theorem main_loop_terminates_witness:
  "config_ok \<lparr>cfg_width = 1, cfg_height = 1, cfg_max_iter = 1\<rparr>
   \<and> main_master \<lparr>cfg_width = 1, cfg_height = 1, cfg_max_iter = 1\<rparr> 2
       [Line 1 0 0, Malformed, Line 1 0 0]
       [[Worker 0 [], Master 0, Worker 0 [7, 7, 7], Master 0, Worker 0 [], Master 0,
         Worker 0 [], Master 0]] [7, 7, 7]
     = Exit 0 [[0, 0, 0]] True [1, - 1]
   \<and> main_worker [1, - 1] = Some 0
   \<and> takeWhile renders [Line 1 0 0, Malformed, Line 1 0 0] = [Line 1 0 0]"
proof -
  let ?c = "\<lparr>cfg_width = 1, cfg_height = 1, cfg_max_iter = 1\<rparr>"
  have h2: "(1::nat) \<le> 2" by simp
  have h3: "length [7, 7, 7 :: byte] = frame_size ?c" by (simp add: frame_size_def)
  have run: "main_master ?c 2 [Line 1 0 0, Malformed, Line 1 0 0]
       [[Worker 0 [], Master 0, Worker 0 [7, 7, 7], Master 0, Worker 0 [], Master 0,
         Worker 0 [], Master 0]] [7, 7, 7] = Exit 0 [[0, 0, 0]] True [1, - 1]"
    using main_master_frame [OF _ exec_1x1_done, of "[Malformed, Line 1 0 0]" "[]"]
    by (simp add: frame_done_def)
  from main_loop_terminates [OF config_ok_1x1 h2 h3] config_ok_1x1 run
  show ?thesis by simp
qed

end
